theory Spec2Isabelle
  imports Main "HOL-Library.Word" "HOL-Library.Multiset" "HOL-Library.Char_ord"
    "HOL-Library.List_Lexorder"
begin

unbundle bit_operations_syntax

section \<open>Line-interning codec (modules/diffmatchpatch/stringutil.go)\<close>

text \<open>
  Go's \<open>byte\<close> is an 8-bit word, \<open>uint32\<close> a 32-bit word and \<open>rune\<close> is \<open>int32\<close>.
  The conversions \<open>rune(i)\<close> and \<open>uint32(r)\<close> keep the 32 bits, so both types are
  \<open>32 word\<close> here; comparisons written on \<open>uint32\<close> values are the unsigned
  word order, and a right shift of a \<open>rune\<close> is the arithmetic one
  (\<open>signed_drop_bit\<close>).
\<close>

type_synonym byte = "8 word"
type_synonym uint32 = "32 word"
type_synonym rune = "32 word"

definition UNICODE_INVALID_RANGE_START :: uint32 where
  "UNICODE_INVALID_RANGE_START = 0xD800"

definition UNICODE_INVALID_RANGE_END :: uint32 where
  "UNICODE_INVALID_RANGE_END = 0xDFFF"

definition UNICODE_INVALID_RANGE_DELTA :: uint32 where
  "UNICODE_INVALID_RANGE_DELTA = UNICODE_INVALID_RANGE_END - UNICODE_INVALID_RANGE_START + 1"

definition ONE_BYTE_BITS :: nat where "ONE_BYTE_BITS = 7"
definition TWO_BYTE_BITS :: nat where "TWO_BYTE_BITS = 11"
definition THREE_BYTE_BITS :: nat where "THREE_BYTE_BITS = 16"
definition FOUR_BYTE_BITS :: nat where "FOUR_BYTE_BITS = 21"

text \<open>\<open>getBits\<close>: \<open>byte((i >> from) & ((1 << cnt) - 1))\<close>, the mask computed on \<open>uint32\<close>.\<close>

definition getBits :: "uint32 \<Rightarrow> nat \<Rightarrow> nat \<Rightarrow> byte" where
  "getBits i cnt from = ucast (drop_bit from i AND (push_bit cnt 1 - 1))"

subsection \<open>The standard library's \<open>unicode/utf8\<close>\<close>

text \<open>
  \<open>utf8.DecodeRune\<close> and \<open>utf8.EncodeRune\<close> belong to Go's standard library; they
  are written out here as the library defines them: the table \<open>first\<close> of the
  lead bytes (\<open>utf8_first\<close>), the table \<open>acceptRanges\<close> of the admissible second bytes, and the
  two functions.
\<close>

definition RuneError :: rune where "RuneError = 0xFFFD"
definition MaxRune :: uint32 where "MaxRune = 0x10FFFF"
definition surrogateMin :: uint32 where "surrogateMin = 0xD800"
definition surrogateMax :: uint32 where "surrogateMax = 0xDFFF"
definition rune1Max :: uint32 where "rune1Max = 0x7F"
definition rune2Max :: uint32 where "rune2Max = 0x7FF"
definition rune3Max :: uint32 where "rune3Max = 0xFFFF"

definition maskx :: byte where "maskx = 0x3F"
definition mask2 :: byte where "mask2 = 0x1F"
definition mask3 :: byte where "mask3 = 0x0F"
definition mask4 :: byte where "mask4 = 0x07"
definition tx :: byte where "tx = 0x80"
definition t2 :: byte where "t2 = 0xC0"
definition t3 :: byte where "t3 = 0xE0"
definition t4 :: byte where "t4 = 0xF0"
definition locb :: byte where "locb = 0x80"
definition hicb :: byte where "hicb = 0xBF"

text \<open>The entries of \<open>first\<close>: \<open>as\<close> is ASCII, \<open>xx\<close> invalid, the others carry
  the index of the accept range in the high nibble and the size in the low one.\<close>

definition utf8_first :: "byte \<Rightarrow> byte" where
  "utf8_first b =
     (if b < 0x80 then 0xF0
      else if b < 0xC2 then 0xF1
      else if b < 0xE0 then 0x02
      else if b = 0xE0 then 0x13
      else if b < 0xED then 0x03
      else if b = 0xED then 0x23
      else if b < 0xF0 then 0x03
      else if b = 0xF0 then 0x34
      else if b < 0xF4 then 0x04
      else if b = 0xF4 then 0x44
      else 0xF1)"

text \<open>\<open>acceptRanges\<close> has 16 entries, of which the first five are set.\<close>

definition acceptRanges :: "byte \<Rightarrow> byte \<times> byte" where
  "acceptRanges k =
     (if k = 0 then (locb, hicb)
      else if k = 1 then (0xA0, hicb)
      else if k = 2 then (locb, 0x9F)
      else if k = 3 then (0x90, hicb)
      else if k = 4 then (locb, 0x8F)
      else (0, 0))"

definition DecodeRune :: "byte list \<Rightarrow> rune \<times> nat" where
  "DecodeRune p =
     (let n = length p in
      if n < 1 then (RuneError, 0)
      else
        let p0 = p ! 0; x = utf8_first p0 in
        if 0xF0 \<le> x then
          (let mask = signed_drop_bit 31 (push_bit 31 (ucast x :: rune))
           in ((ucast p0 AND NOT mask) OR (RuneError AND mask), 1))
        else
          let sz = unat (x AND 7); (lo, hi) = acceptRanges (drop_bit 4 x) in
          if n < sz then (RuneError, 1)
          else
            let b1 = p ! 1 in
            if b1 < lo \<or> hi < b1 then (RuneError, 1)
            else if sz \<le> 2 then (push_bit 6 (ucast (p0 AND mask2)) OR ucast (b1 AND maskx), 2)
            else
              let b2 = p ! 2 in
              if b2 < locb \<or> hicb < b2 then (RuneError, 1)
              else if sz \<le> 3 then
                (push_bit 12 (ucast (p0 AND mask3)) OR push_bit 6 (ucast (b1 AND maskx))
                   OR ucast (b2 AND maskx), 3)
              else
                let b3 = p ! 3 in
                if b3 < locb \<or> hicb < b3 then (RuneError, 1)
                else
                  (push_bit 18 (ucast (p0 AND mask4)) OR push_bit 12 (ucast (b1 AND maskx))
                     OR push_bit 6 (ucast (b2 AND maskx)) OR ucast (b3 AND maskx), 4))"

text \<open>\<open>EncodeRune\<close> writes into the buffer \<open>p\<close> (here of length 4, as its one caller
  passes it) and returns the number of bytes written; the model returns the
  buffer as well.\<close>

definition EncodeRune :: "byte list \<Rightarrow> rune \<Rightarrow> byte list \<times> nat" where
  "EncodeRune p r =
     (let i = (r :: uint32) in
      if i \<le> rune1Max then (p[0 := ucast r], 1)
      else if i \<le> rune2Max then
        (p[0 := t2 OR ucast (signed_drop_bit 6 r),
           1 := tx OR (ucast r AND maskx)], 2)
      else if i < surrogateMin \<or> (surrogateMax < i \<and> i \<le> rune3Max) then
        (p[0 := t3 OR ucast (signed_drop_bit 12 r),
           1 := tx OR (ucast (signed_drop_bit 6 r) AND maskx),
           2 := tx OR (ucast r AND maskx)], 3)
      else if rune3Max < i \<and> i \<le> MaxRune then
        (p[0 := t4 OR ucast (signed_drop_bit 18 r),
           1 := tx OR (ucast (signed_drop_bit 12 r) AND maskx),
           2 := tx OR (ucast (signed_drop_bit 6 r) AND maskx),
           3 := tx OR (ucast r AND maskx)], 4)
      else (p[0 := 0xEF, 1 := 0xBF, 2 := 0xBD], 3))"

subsection \<open>\<open>intToRune\<close> and \<open>runeToInt\<close>\<close>

text \<open>The panics of the two functions: the self-check of the \<open>n\<close>-byte branch of
  \<open>intToRune\<close>, its final range panic, and the final panic of \<open>runeToInt\<close>.
  \<open>checked k\<close> is the test \<open>if size != k || r == utf8.RuneError { panic(...) }\<close>
  that follows each call of \<open>utf8.DecodeRune\<close> in \<open>intToRune\<close>.\<close>

datatype panic = EncodingFailed nat | TooLarge | UnexpectedState

definition checked :: "nat \<Rightarrow> rune \<times> nat \<Rightarrow> panic + rune" where
  "checked k d = (case d of (r, sz) \<Rightarrow>
     if sz \<noteq> k \<or> r = RuneError then Inl (EncodingFailed k) else Inr r)"

definition intToRune :: "uint32 \<Rightarrow> panic + rune" where
  "intToRune i =
     (if i < push_bit ONE_BYTE_BITS 1 then Inr i
      else if i < push_bit TWO_BYTE_BITS 1 then
        checked 2 (DecodeRune [0xC0 OR getBits i 5 6, 0x80 OR getBits i 6 0])
      else if i < push_bit THREE_BYTE_BITS 1 - UNICODE_INVALID_RANGE_DELTA - 3 then
        (let i = (if UNICODE_INVALID_RANGE_START \<le> i then i + UNICODE_INVALID_RANGE_DELTA else i)
         in checked 3 (DecodeRune [0xE0 OR getBits i 4 12, 0x80 OR getBits i 6 6,
                                   0x80 OR getBits i 6 0]))
      else if i < push_bit FOUR_BYTE_BITS 1 - UNICODE_INVALID_RANGE_DELTA - 3 then
        (let i = i + (UNICODE_INVALID_RANGE_DELTA + 3)
         in checked 4 (DecodeRune [0xF0 OR getBits i 3 18, 0x80 OR getBits i 6 12,
                                   0x80 OR getBits i 6 6, 0x80 OR getBits i 6 0]))
      else Inl TooLarge)"

definition runeToInt :: "rune \<Rightarrow> panic + uint32" where
  "runeToInt r =
     (let i = (r :: uint32) in
      if i < push_bit ONE_BYTE_BITS 1 then Inr i
      else
        let (bytes, sz) = EncodeRune [0, 0, 0, 0] r in
        if sz = 2 then
          Inr (push_bit 6 (ucast (bytes ! 0 AND 0x1F)) OR ucast (bytes ! 1 AND 0x3F))
        else if sz = 3 then
          (let result = push_bit 12 (ucast (bytes ! 0 AND 0x0F))
                          OR push_bit 6 (ucast (bytes ! 1 AND 0x3F))
                          OR ucast (bytes ! 2 AND 0x3F)
           in if UNICODE_INVALID_RANGE_END \<le> result
              then Inr (result - UNICODE_INVALID_RANGE_DELTA) else Inr result)
        else if sz = 4 then
          (let result = push_bit 18 (ucast (bytes ! 0 AND 0x07))
                          OR push_bit 12 (ucast (bytes ! 1 AND 0x3F))
                          OR push_bit 6 (ucast (bytes ! 2 AND 0x3F))
                          OR ucast (bytes ! 3 AND 0x3F)
           in Inr (result - UNICODE_INVALID_RANGE_DELTA - 3))
        else Inl UnexpectedState)"


section \<open>Structural changes (modules/zeta/object/change.go)\<close>

text \<open>
  Modelled from the spec: the declarations of \<open>merkletrie.Action\<close>, \<open>TreeEntry\<close>,
  \<open>Tree\<close>, \<open>File\<close> and \<open>filemode.FileMode\<close>, which are in files that are not
  among the sources at hand. An action is an insertion, a deletion or a
  modification. Of a \<open>TreeEntry\<close> (the spec's content entry, with a name, a file
  mode, a content hash and a size) the code reads the fields \<open>Name\<close>, \<open>Mode\<close>,
  \<open>Hash\<close> and \<open>Size\<close>, of a \<open>Tree\<close> the field \<open>b\<close>; file modes, hashes and
  backends are type parameters. A \<open>File\<close> (the spec's file view) is what
  \<open>newFile\<close> builds from its five arguments. A \<open>*Tree\<close> is an option, \<open>nil\<close> being
  \<open>None\<close>.

  The methods \<open>Tree.Equal\<close>, \<open>TreeEntry.Equal\<close> and \<open>FileMode.IsFile\<close> are not among
  the sources either: they are parameters (\<open>teq\<close>, \<open>eeq\<close>, \<open>isFile\<close>) of the
  functions that call them.
\<close>

datatype Action = Insert | Delete | Modify

record ('m, 'h) TreeEntry =
  te_Name :: string
  te_Size :: int
  te_Mode :: 'm
  te_Hash :: 'h

record 'b Tree =
  Tree_b :: 'b

datatype ('m, 'h, 'b) File = newFile string 'm 'h int 'b

record ('m, 'h, 'b) ChangeEntry =
  Name :: string
  Tree :: "'b Tree option"
  TreeEntry :: "('m, 'h) TreeEntry"

record ('m, 'h, 'b) Change =
  From :: "('m, 'h, 'b) ChangeEntry"
  To :: "('m, 'h, 'b) ChangeEntry"

text \<open>\<open>var empty ChangeEntry\<close>: the zero value, with the empty name, the \<open>nil\<close> tree
  and the zero tree entry.\<close>

definition empty :: "('m::zero, 'h::zero, 'b) ChangeEntry" where
  "empty = \<lparr>Name = [], Tree = None,
             TreeEntry = \<lparr>te_Name = [], te_Size = 0, te_Mode = 0, te_Hash = 0\<rparr>\<rparr>"

definition ChangeEntry_Equal ::
  "('b Tree option \<Rightarrow> 'b Tree option \<Rightarrow> bool) \<Rightarrow> (('m, 'h) TreeEntry \<Rightarrow> ('m, 'h) TreeEntry \<Rightarrow> bool) \<Rightarrow>
   ('m, 'h, 'b) ChangeEntry \<Rightarrow> ('m, 'h, 'b) ChangeEntry \<Rightarrow> bool" where
  "ChangeEntry_Equal teq eeq e o' =
     (Name e = Name o' \<and> teq (Tree e) (Tree o') \<and> eeq (TreeEntry e) (TreeEntry o'))"

text \<open>The error \<open>Action\<close> returns, and the run-time panic of \<open>Files\<close> when it reads
  the field \<open>b\<close> through a \<open>nil\<close> tree.\<close>

datatype change_error = MalformedChange | NilPointerDereference

definition Change_Action ::
  "('b Tree option \<Rightarrow> 'b Tree option \<Rightarrow> bool) \<Rightarrow> (('m, 'h) TreeEntry \<Rightarrow> ('m, 'h) TreeEntry \<Rightarrow> bool) \<Rightarrow>
   ('m::zero, 'h::zero, 'b) Change \<Rightarrow> change_error + Action" where
  "Change_Action teq eeq c =
     (if ChangeEntry_Equal teq eeq (From c) empty \<and> ChangeEntry_Equal teq eeq (To c) empty
      then Inl MalformedChange
      else if ChangeEntry_Equal teq eeq (From c) empty then Inr Insert
      else if ChangeEntry_Equal teq eeq (To c) empty then Inr Delete
      else Inr Modify)"

text \<open>\<open>newFile(e.Name, e.Mode, e.Hash, e.Size, side.Tree.b)\<close> for one side of a change.\<close>

definition side_file ::
  "('m, 'h, 'b) ChangeEntry \<Rightarrow> change_error + ('m, 'h, 'b) File" where
  "side_file s =
     (let e = TreeEntry s in
      case Tree s of
        None \<Rightarrow> Inl NilPointerDereference
      | Some t \<Rightarrow> Inr (newFile (te_Name e) (te_Mode e) (te_Hash e) (te_Size e) (Tree_b t)))"

definition Change_Files ::
  "('b Tree option \<Rightarrow> 'b Tree option \<Rightarrow> bool) \<Rightarrow> (('m, 'h) TreeEntry \<Rightarrow> ('m, 'h) TreeEntry \<Rightarrow> bool) \<Rightarrow>
   ('m \<Rightarrow> bool) \<Rightarrow> ('m::zero, 'h::zero, 'b) Change \<Rightarrow>
   change_error + (('m, 'h, 'b) File option \<times> ('m, 'h, 'b) File option)" where
  "Change_Files teq eeq isFile c =
     (case Change_Action teq eeq c of
        Inl err \<Rightarrow> Inl err
      | Inr action \<Rightarrow>
          if (action = Insert \<or> action = Modify) \<and> \<not> isFile (te_Mode (TreeEntry (To c)))
          then Inr (None, None)
          else
            case (if action = Insert \<or> action = Modify
                  then map_sum id Some (side_file (To c)) else Inr None) of
              Inl err \<Rightarrow> Inl err
            | Inr to \<Rightarrow>
                if (action = Delete \<or> action = Modify) \<and> \<not> isFile (te_Mode (TreeEntry (From c)))
                then Inr (None, None)
                else
                  case (if action = Delete \<or> action = Modify
                        then map_sum id Some (side_file (From c)) else Inr None) of
                    Inl err \<Rightarrow> Inl err
                  | Inr from \<Rightarrow> Inr (from, to))"

definition Change_name ::
  "('b Tree option \<Rightarrow> 'b Tree option \<Rightarrow> bool) \<Rightarrow> (('m, 'h) TreeEntry \<Rightarrow> ('m, 'h) TreeEntry \<Rightarrow> bool) \<Rightarrow>
   ('m::zero, 'h::zero, 'b) Change \<Rightarrow> string" where
  "Change_name teq eeq c =
     (if \<not> ChangeEntry_Equal teq eeq (From c) empty then Name (From c) else Name (To c))"

subsection \<open>\<open>Changes\<close> as a \<open>sort.Interface\<close>\<close>

text \<open>Go compares strings byte by byte; \<open>strings.Compare\<close> returns \<open>-1\<close>, \<open>0\<close> or
  \<open>+1\<close>. The order on \<open>string\<close> is the lexicographic one over the order of the
  bytes.\<close>

definition strings_Compare :: "string \<Rightarrow> string \<Rightarrow> int" where
  "strings_Compare a b = (if a = b then 0 else if a < b then - 1 else 1)"

definition Changes_Len :: "'c list \<Rightarrow> nat" where
  "Changes_Len c = length c"

definition Changes_Swap :: "'c list \<Rightarrow> nat \<Rightarrow> nat \<Rightarrow> 'c list" where
  "Changes_Swap c i j = c[i := c ! j, j := c ! i]"

text \<open>\<open>Less\<close> indexes the slice; the callers in package \<open>sort\<close> pass indices below
  \<open>Len\<close>.\<close>

definition Changes_Less ::
  "('b Tree option \<Rightarrow> 'b Tree option \<Rightarrow> bool) \<Rightarrow> (('m, 'h) TreeEntry \<Rightarrow> ('m, 'h) TreeEntry \<Rightarrow> bool) \<Rightarrow>
   ('m::zero, 'h::zero, 'b) Change list \<Rightarrow> nat \<Rightarrow> nat \<Rightarrow> bool" where
  "Changes_Less teq eeq c i j =
     (strings_Compare (Change_name teq eeq (c ! i)) (Change_name teq eeq (c ! j)) < 0)"

text \<open>\<open>sort.IsSorted\<close> of the standard library: no element is \<open>Less\<close> than its
  predecessor.\<close>

definition IsSorted ::
  "('b Tree option \<Rightarrow> 'b Tree option \<Rightarrow> bool) \<Rightarrow> (('m, 'h) TreeEntry \<Rightarrow> ('m, 'h) TreeEntry \<Rightarrow> bool) \<Rightarrow>
   ('m::zero, 'h::zero, 'b) Change list \<Rightarrow> bool" where
  "IsSorted teq eeq c = list_all (\<lambda>i. \<not> Changes_Less teq eeq c i (i - 1)) [1..<Changes_Len c]"

subsection \<open>Sorting a change set\<close>

text \<open>
  \<open>insertionSort\<close> of the standard library's package \<open>sort\<close>, which sorts
  \<open>data[a:b]\<close> through \<open>Less\<close> and \<open>Swap\<close>:
  \<^verbatim>\<open>for i := a + 1; i < b; i++ {
    for j := i; j > a && data.Less(j, j-1); j-- { data.Swap(j, j-1) } }\<close>
  The inner loop is \<open>insertionSort_inner\<close> over \<open>j\<close>, the outer one
  \<open>insertionSort_outer\<close> over \<open>i\<close>; both return the slice.
\<close>

function insertionSort_inner ::
  "('b Tree option \<Rightarrow> 'b Tree option \<Rightarrow> bool) \<Rightarrow> (('m, 'h) TreeEntry \<Rightarrow> ('m, 'h) TreeEntry \<Rightarrow> bool) \<Rightarrow>
   ('m::zero, 'h::zero, 'b) Change list \<Rightarrow> nat \<Rightarrow> nat \<Rightarrow> ('m, 'h, 'b) Change list" where
  "insertionSort_inner teq eeq c a j =
     (if j > a \<and> Changes_Less teq eeq c j (j - 1)
      then insertionSort_inner teq eeq (Changes_Swap c j (j - 1)) a (j - 1)
      else c)"
  by pat_completeness auto
termination
  by (relation "measure (\<lambda>(teq, eeq, c, a, j). j)") auto

function insertionSort_outer ::
  "('b Tree option \<Rightarrow> 'b Tree option \<Rightarrow> bool) \<Rightarrow> (('m, 'h) TreeEntry \<Rightarrow> ('m, 'h) TreeEntry \<Rightarrow> bool) \<Rightarrow>
   ('m::zero, 'h::zero, 'b) Change list \<Rightarrow> nat \<Rightarrow> nat \<Rightarrow> nat \<Rightarrow> ('m, 'h, 'b) Change list" where
  "insertionSort_outer teq eeq c a b i =
     (if i < b
      then insertionSort_outer teq eeq (insertionSort_inner teq eeq c a i) a b (i + 1)
      else c)"
  by pat_completeness auto
termination
  by (relation "measure (\<lambda>(teq, eeq, c, a, b, i). b - i)") auto

definition insertionSort ::
  "('b Tree option \<Rightarrow> 'b Tree option \<Rightarrow> bool) \<Rightarrow> (('m, 'h) TreeEntry \<Rightarrow> ('m, 'h) TreeEntry \<Rightarrow> bool) \<Rightarrow>
   ('m::zero, 'h::zero, 'b) Change list \<Rightarrow> nat \<Rightarrow> nat \<Rightarrow> ('m, 'h, 'b) Change list" where
  "insertionSort teq eeq c a b = insertionSort_outer teq eeq c a b (a + 1)"

text \<open>
  Modelled from the spec: the operation \<open>Sort\<close> on a change set, whose call into
  package \<open>sort\<close> is not among the sources at hand. The spec has it as a stable
  sort by effective path that goes through the triad \<open>Len\<close>, \<open>Less\<close> and \<open>Swap\<close>.
  It is the insertion sort of package \<open>sort\<close> over the whole slice,
  \<open>insertionSort(data, 0, data.Len())\<close>: a stable sort that moves elements with
  \<open>Swap\<close> only and compares them with \<open>Less\<close> only, and the one that \<open>sort.Stable\<close>
  runs on a slice of at most 20 elements and \<open>sort.Sort\<close> on one of at most 12.
\<close>

definition Changes_Sort ::
  "('b Tree option \<Rightarrow> 'b Tree option \<Rightarrow> bool) \<Rightarrow> (('m, 'h) TreeEntry \<Rightarrow> ('m, 'h) TreeEntry \<Rightarrow> bool) \<Rightarrow>
   ('m::zero, 'h::zero, 'b) Change list \<Rightarrow> ('m, 'h, 'b) Change list" where
  "Changes_Sort teq eeq c = insertionSort teq eeq c 0 (Changes_Len c)"


section \<open>pkt-line scanner (package pktline)\<close>

text \<open>
  The reader behind a \<open>Scanner\<close> is the sequence of bytes it still delivers and the
  error it returns once they are used up (\<open>io.EOF\<close> at the end of a stream).
  The constant \<open>OversizePayloadMax\<close> is declared in a file that is not part of
  the sources at hand: it is a parameter of \<open>readPayloadLen\<close>.
\<close>

datatype pkt_error = ErrInvalidPktLen | EOF | ErrUnexpectedEOF | ReadError nat

record reader =
  rd_data :: "byte list"
  rd_final :: pkt_error

record Scanner =
  sc_r :: reader
  sc_err :: "pkt_error option"
  sc_payload :: "byte list"
  sc_len :: "byte \<times> byte \<times> byte \<times> byte"

definition lenSize :: int where "lenSize = 4"

text \<open>\<open>io.ReadFull(s.r, s.len[:])\<close> of the standard library: four bytes fill the
  array; fewer leave the rest of it as it was, with \<open>io.ErrUnexpectedEOF\<close> when
  the stream ended after at least one byte, and with the reader's error
  otherwise.\<close>

definition ReadFull_len :: "Scanner \<Rightarrow> pkt_error option \<times> Scanner" where
  "ReadFull_len s =
     (let d = rd_data (sc_r s); (l0, l1, l2, l3) = sc_len s in
      case d of
        b0 # b1 # b2 # b3 # rest \<Rightarrow>
          (None, s\<lparr>sc_r := (sc_r s)\<lparr>rd_data := rest\<rparr>, sc_len := (b0, b1, b2, b3)\<rparr>)
      | [b0, b1, b2] \<Rightarrow>
          (Some (if rd_final (sc_r s) = EOF then ErrUnexpectedEOF else rd_final (sc_r s)),
           s\<lparr>sc_r := (sc_r s)\<lparr>rd_data := []\<rparr>, sc_len := (b0, b1, b2, l3)\<rparr>)
      | [b0, b1] \<Rightarrow>
          (Some (if rd_final (sc_r s) = EOF then ErrUnexpectedEOF else rd_final (sc_r s)),
           s\<lparr>sc_r := (sc_r s)\<lparr>rd_data := []\<rparr>, sc_len := (b0, b1, l2, l3)\<rparr>)
      | [b0] \<Rightarrow>
          (Some (if rd_final (sc_r s) = EOF then ErrUnexpectedEOF else rd_final (sc_r s)),
           s\<lparr>sc_r := (sc_r s)\<lparr>rd_data := []\<rparr>, sc_len := (b0, l1, l2, l3)\<rparr>)
      | [] \<Rightarrow> (Some (rd_final (sc_r s)), s))"

text \<open>The 256 entries of \<open>reverseHexTable\<close>: \<open>0xff\<close> everywhere but at the digits
  \<open>0\<close> to \<open>9\<close> (from index \<open>0x30\<close>), \<open>A\<close> to \<open>F\<close> (from \<open>0x41\<close>) and \<open>a\<close> to \<open>f\<close>
  (from \<open>0x61\<close>).\<close>

definition reverseHexTable :: "byte list" where
  "reverseHexTable =
     replicate 48 0xff
     @ [0x00, 0x01, 0x02, 0x03, 0x04, 0x05, 0x06, 0x07, 0x08, 0x09]
     @ replicate 6 0xff
     @ [0xff, 0x0a, 0x0b, 0x0c, 0x0d, 0x0e, 0x0f] @ replicate 9 0xff
     @ replicate 16 0xff
     @ [0xff, 0x0a, 0x0b, 0x0c, 0x0d, 0x0e, 0x0f] @ replicate 9 0xff
     @ replicate 144 0xff"

definition hexval :: "byte \<Rightarrow> int" where
  "hexval b = uint (reverseHexTable ! unat b)"

definition hexDecode :: "byte \<times> byte \<times> byte \<times> byte \<Rightarrow> pkt_error + int" where
  "hexDecode lenBytes =
     (case lenBytes of (l0, l1, l2, l3) \<Rightarrow>
        let a = hexval l0; b = hexval l1; c = hexval l2; d = hexval l3 in
        if a > 0xf \<or> b > 0xf \<or> c > 0xf \<or> d > 0xf then Inl ErrInvalidPktLen
        else Inr (push_bit 12 a OR push_bit 8 b OR push_bit 4 c OR d))"

definition Scanner_readPayloadLen :: "int \<Rightarrow> Scanner \<Rightarrow> (pkt_error + int) \<times> Scanner" where
  "Scanner_readPayloadLen OversizePayloadMax s =
     (case ReadFull_len s of
        (Some err, s') \<Rightarrow>
          if err = ErrUnexpectedEOF then (Inl ErrInvalidPktLen, s') else (Inl err, s')
      | (None, s') \<Rightarrow>
          (case hexDecode (sc_len s') of
             Inl err \<Rightarrow> (Inl err, s')
           | Inr n \<Rightarrow>
               if n = 0 then (Inr 0, s')
               else if n \<le> lenSize then (Inl ErrInvalidPktLen, s')
               else if n > OversizePayloadMax + lenSize then (Inl ErrInvalidPktLen, s')
               else (Inr (n - lenSize), s')))"

section \<open>String splitting (package strengthen)\<close>

text \<open>
  The loop of \<open>StrSplitSkipEmpty\<close> over the index \<open>i\<close>, with the variables \<open>first\<close>
  and \<open>sv\<close>; \<open>s[first:i]\<close> is \<open>take (i - first) (drop first s)\<close>. The indices stay
  between \<open>0\<close> and \<open>len(s)\<close>, so they are natural numbers.
\<close>

function StrSplitSkipEmpty_loop ::
  "string \<Rightarrow> char \<Rightarrow> nat \<Rightarrow> nat \<Rightarrow> string list \<Rightarrow> nat \<times> string list" where
  "StrSplitSkipEmpty_loop s sep first i sv =
     (if i < length s then
        (if s ! i \<noteq> sep then StrSplitSkipEmpty_loop s sep first (i + 1) sv
         else StrSplitSkipEmpty_loop s sep (i + 1) (i + 1)
                (if first \<noteq> i then sv @ [take (i - first) (drop first s)] else sv))
      else (first, sv))"
  by pat_completeness auto
termination
  by (relation "measure (\<lambda>(s, sep, first, i, sv). length s - i)") auto

text \<open>
  \<open>make([]string, 0, suggestcap)\<close> panics at run time when the capacity is negative
  and when it is larger than the run time allocates. The largest capacity that
  \<open>make\<close> accepts for a slice of strings is a constant of the Go run time and of
  the platform (the largest allocation divided by the size of a string header,
  \<open>2^44\<close> on 64-bit Linux): it is the parameter \<open>maxcap\<close>.
\<close>

datatype split_panic = MakeSliceCapOutOfRange

definition StrSplitSkipEmpty ::
  "int \<Rightarrow> string \<Rightarrow> char \<Rightarrow> int \<Rightarrow> split_panic + string list" where
  "StrSplitSkipEmpty maxcap s sep suggestcap =
     (if suggestcap < 0 \<or> maxcap < suggestcap then Inl MakeSliceCapOutOfRange
      else
        let (first, sv) = StrSplitSkipEmpty_loop s sep 0 0 [] in
        if first < length s then Inr (sv @ [drop first s]) else Inr sv)"

text \<open>What the result is compared with: the fields of \<open>s\<close> between the separators,
  as \<open>strings.Split\<close> cuts them for a one-byte separator, and those of them
  that are not empty.\<close>

fun sep_fields :: "char \<Rightarrow> string \<Rightarrow> string list" where
  "sep_fields sep [] = [[]]"
| "sep_fields sep (c # cs) =
     (if c = sep then [] # sep_fields sep cs
      else (case sep_fields sep cs of f # fs \<Rightarrow> (c # f) # fs | [] \<Rightarrow> [[c]]))"

definition nonempty_fields :: "char \<Rightarrow> string \<Rightarrow> string list" where
  "nonempty_fields sep s = filter (\<lambda>f. f \<noteq> []) (sep_fields sep s)"

text \<open>Joining fields with the separator, as \<open>strings.Join\<close> does: the fields of
  \<open>s\<close> are the strings without separator that join to \<open>s\<close>.\<close>

fun join_fields :: "char \<Rightarrow> string list \<Rightarrow> string" where
  "join_fields sep [] = []"
| "join_fields sep [f] = f"
| "join_fields sep (f # g # fs) = f @ sep # join_fields sep (g # fs)"

text \<open>What the pkt-len header is compared with: the value of a hexadecimal
  digit, and of four of them.\<close>

definition hex_digit :: "byte \<Rightarrow> int option" where
  "hex_digit b =
     (if 0x30 \<le> b \<and> b \<le> 0x39 then Some (uint b - 0x30)
      else if 0x41 \<le> b \<and> b \<le> 0x46 then Some (uint b - 0x41 + 10)
      else if 0x61 \<le> b \<and> b \<le> 0x66 then Some (uint b - 0x61 + 10)
      else None)"

definition hex4 :: "byte \<times> byte \<times> byte \<times> byte \<Rightarrow> int option" where
  "hex4 h = (case h of (h0, h1, h2, h3) \<Rightarrow>
     (case (hex_digit h0, hex_digit h1, hex_digit h2, hex_digit h3) of
        (Some a, Some b, Some c, Some d) \<Rightarrow> Some (4096 * a + 256 * b + 16 * c + d)
      | _ \<Rightarrow> None))"


section \<open>Auxiliary definitions\<close>

text \<open>The file that \<open>Files\<close> builds for a side of a change with a tree.\<close>

definition file_view :: "('m, 'h, 'b) ChangeEntry \<Rightarrow> ('m, 'h, 'b) File" where
  "file_view s = newFile (te_Name (TreeEntry s)) (te_Mode (TreeEntry s)) (te_Hash (TreeEntry s))
     (te_Size (TreeEntry s)) (Tree_b (the (Tree s)))"

text \<open>Inserting \<open>x\<close> into a list that descends in the key \<open>f\<close>, behind the elements
  with a larger key: what the inner loop of \<open>insertionSort\<close> does to the prefix of
  the slice, read from right to left.\<close>

fun insert_desc :: "('a \<Rightarrow> string) \<Rightarrow> 'a \<Rightarrow> 'a list \<Rightarrow> 'a list" where
  "insert_desc f x [] = [x]"
| "insert_desc f x (y # ys) = (if f x < f y then y # insert_desc f x ys else x # y # ys)"

text \<open>Putting a segment in front of the first of the fields, for the invariant of the
  loop of \<open>StrSplitSkipEmpty\<close>.\<close>

fun prepend :: "string \<Rightarrow> string list \<Rightarrow> string list" where
  "prepend cur [] = [cur]"
| "prepend cur (f # fs) = (cur @ f) # fs"

section \<open>Example inputs\<close>

text \<open>A present side of a change, at path \<open>p\<close> with mode \<open>m\<close>, over natural numbers
  as modes, hashes and backends.\<close>

definition ex_entry :: "string \<Rightarrow> nat \<Rightarrow> (nat, nat, nat) ChangeEntry" where
  "ex_entry p m = \<lparr>Name = p, Tree = Some \<lparr>Tree_b = 0\<rparr>,
      TreeEntry = \<lparr>te_Name = p, te_Size = 3, te_Mode = m, te_Hash = 7\<rparr>\<rparr>"


text \<open>A modification, an insertion and a deletion at path \<open>p\<close>; the mode \<open>1\<close> is the
  one file mode of the examples.\<close>

definition ex_change :: "string \<Rightarrow> nat \<Rightarrow> nat \<Rightarrow> (nat, nat, nat) Change" where
  "ex_change p m n = \<lparr>From = ex_entry p m, To = ex_entry p n\<rparr>"

definition ex_insert :: "string \<Rightarrow> nat \<Rightarrow> (nat, nat, nat) Change" where
  "ex_insert p n = \<lparr>From = empty, To = ex_entry p n\<rparr>"

definition ex_delete :: "string \<Rightarrow> nat \<Rightarrow> (nat, nat, nat) Change" where
  "ex_delete p m = \<lparr>From = ex_entry p m, To = empty\<rparr>"

definition ex_isFile :: "nat \<Rightarrow> bool" where
  "ex_isFile m = (m = 1)"

text \<open>A scanner over a stream of the bytes \<open>d\<close>.\<close>

definition ex_scanner :: "byte list \<Rightarrow> Scanner" where
  "ex_scanner d = \<lparr>sc_r = \<lparr>rd_data = d, rd_final = EOF\<rparr>, sc_err = None, sc_payload = [],
      sc_len = (0, 0, 0, 0)\<rparr>"


section \<open>The codec: bit fields and their bytes\<close>

lemma getBits_take: "getBits i cnt k = ucast (take_bit cnt (drop_bit k i))"
  by (simp add: getBits_def take_bit_eq_mask mask_eq_exp_minus_1)

lemma unat_getBits: "cnt \<le> 8 \<Longrightarrow> unat (getBits i cnt k) = (unat i div 2 ^ k) mod 2 ^ cnt"
proof -
  assume c: "cnt \<le> 8"
  have "unat (getBits i cnt k) = take_bit 8 (take_bit cnt (drop_bit k (unat i)))"
    by (simp add: getBits_take unsigned_ucast_eq unsigned_take_bit_eq unat_drop_bit_eq min.commute)
  also have "\<dots> = take_bit cnt (drop_bit k (unat i))"
    using c by (simp add: min_def)
  finally show ?thesis by (simp add: take_bit_eq_mod drop_bit_eq_div)
qed

lemma or_add_nat: "y < 2 ^ k \<Longrightarrow> push_bit k c OR y = push_bit k c + (y::nat)"
proof -
  assume "y < 2 ^ k"
  then have t: "take_bit k y = y" by (simp add: take_bit_nat_eq_self)
  have "push_bit k c AND y = 0"
    by (rule bit_eqI) (subst t [symmetric], auto simp: bit_simps)
  then show ?thesis by (simp add: disjunctive_add_eq_or)
qed

lemma unat_tx: fixes x :: byte
  shows "unat x < 64 \<Longrightarrow> unat (0x80 OR x) = 128 + unat x"
  using or_add_nat [of "unat x" 6 2] by (simp add: unsigned_or_eq)

lemma unat_t2: fixes x :: byte
  shows "unat x < 32 \<Longrightarrow> unat (0xC0 OR x) = 192 + unat x"
  using or_add_nat [of "unat x" 5 6] by (simp add: unsigned_or_eq)

lemma unat_t3: fixes x :: byte
  shows "unat x < 16 \<Longrightarrow> unat (0xE0 OR x) = 224 + unat x"
  using or_add_nat [of "unat x" 4 14] by (simp add: unsigned_or_eq)

lemma unat_t4: fixes x :: byte
  shows "unat x < 8 \<Longrightarrow> unat (0xF0 OR x) = 240 + unat x"
  using or_add_nat [of "unat x" 3 30] by (simp add: unsigned_or_eq)


lemma and_tag: fixes a m x :: byte
  assumes "a AND m = 0" "x AND m = x" shows "(a OR x) AND m = x"
  using assms by (simp add: bit.conj_disj_distrib2)

lemma getBits_mask: "cnt \<le> 8 \<Longrightarrow> getBits i cnt k AND mask cnt = getBits i cnt k"
  unfolding getBits_take
  by (rule bit_eqI) (auto simp: bit_simps)

lemma and_tx: "(0x80 OR getBits i 6 k) AND 0x3F = getBits i 6 k"
  using getBits_mask [of 6 i k] by (intro and_tag) (simp_all add: mask_eq_exp_minus_1)

lemma and_t2: "(0xC0 OR getBits i 5 k) AND 0x1F = getBits i 5 k"
  using getBits_mask [of 5 i k] by (intro and_tag) (simp_all add: mask_eq_exp_minus_1)

lemma and_t3: "(0xE0 OR getBits i 4 k) AND 0x0F = getBits i 4 k"
  using getBits_mask [of 4 i k] by (intro and_tag) (simp_all add: mask_eq_exp_minus_1)

lemma and_t4: "(0xF0 OR getBits i 3 k) AND 0x07 = getBits i 3 k"
  using getBits_mask [of 3 i k] by (intro and_tag) (simp_all add: mask_eq_exp_minus_1)

lemma pack2: "push_bit 6 (ucast (getBits i 5 6)) OR ucast (getBits i 6 0) = take_bit 11 i"
  unfolding getBits_take
  by (rule bit_eqI) (auto simp: bit_simps)

lemma pack3: "push_bit 12 (ucast (getBits i 4 12)) OR push_bit 6 (ucast (getBits i 6 6)) OR ucast (getBits i 6 0) = take_bit 16 i"
  unfolding getBits_take
proof (rule bit_eqI)
  fix n
  show "bit (push_bit 12 (ucast (ucast (take_bit 4 (drop_bit 12 i)) :: byte)) OR
          push_bit 6 (ucast (ucast (take_bit 6 (drop_bit 6 i)) :: byte)) OR
          ucast (ucast (take_bit 6 (drop_bit 0 i)) :: byte) :: uint32) n = bit (take_bit 16 i) n"
    by (cases "n < 6"; cases "n < 12"; cases "n < 16") (auto simp: bit_simps)
qed

lemma pack4: "push_bit 18 (ucast (getBits i 3 18)) OR push_bit 12 (ucast (getBits i 6 12)) 
   OR push_bit 6 (ucast (getBits i 6 6)) OR ucast (getBits i 6 0) = take_bit 21 i"
  unfolding getBits_take
proof (rule bit_eqI)
  fix n
  show "bit (push_bit 18 (ucast (ucast (take_bit 3 (drop_bit 18 i)) :: byte)) OR
          push_bit 12 (ucast (ucast (take_bit 6 (drop_bit 12 i)) :: byte)) OR
          push_bit 6 (ucast (ucast (take_bit 6 (drop_bit 6 i)) :: byte)) OR
          ucast (ucast (take_bit 6 (drop_bit 0 i)) :: byte) :: uint32) n = bit (take_bit 21 i) n"
    by (cases "n < 6"; cases "n < 12"; cases "n < 18"; cases "n < 21") (auto simp: bit_simps)
qed


lemmas byte_cmp = word_less_nat_alt word_le_nat_alt word_unat_eq_iff

lemma first_s1: "194 \<le> unat b \<Longrightarrow> unat b < 224 \<Longrightarrow> utf8_first b = 0x02"
  by (simp add: utf8_first_def byte_cmp)
lemma first_s2: "unat b = 224 \<Longrightarrow> utf8_first b = 0x13"
  by (simp add: utf8_first_def byte_cmp)
lemma first_s3: "225 \<le> unat b \<Longrightarrow> unat b < 240 \<Longrightarrow> unat b \<noteq> 237 \<Longrightarrow> utf8_first b = 0x03"
  by (simp add: utf8_first_def byte_cmp)
lemma first_s4: "unat b = 237 \<Longrightarrow> utf8_first b = 0x23"
  by (simp add: utf8_first_def byte_cmp)
lemma first_s5: "unat b = 240 \<Longrightarrow> utf8_first b = 0x34"
  by (simp add: utf8_first_def byte_cmp)
lemma first_s6: "241 \<le> unat b \<Longrightarrow> unat b < 244 \<Longrightarrow> utf8_first b = 0x04"
  by (simp add: utf8_first_def byte_cmp)
lemma first_s7: "unat b = 244 \<Longrightarrow> utf8_first b = 0x44"
  by (simp add: utf8_first_def byte_cmp)
lemma first_xx: "245 \<le> unat b \<Longrightarrow> utf8_first b = 0xF1"
  by (simp add: utf8_first_def byte_cmp)

lemma DecodeRune_xx: "245 \<le> unat p0 \<Longrightarrow> snd (DecodeRune (p0 # ps)) = 1"
  by (simp add: DecodeRune_def first_xx Let_def)

lemma DecodeRune_2:
  assumes "194 \<le> unat p0" "unat p0 < 224" "128 \<le> unat b1" "unat b1 < 192"
  shows "DecodeRune [p0, b1] = (push_bit 6 (ucast (p0 AND 0x1F)) OR ucast (b1 AND 0x3F), 2)"
  using assms
  by (simp add: DecodeRune_def first_s1 Let_def acceptRanges_def locb_def hicb_def mask2_def maskx_def byte_cmp)

lemma DecodeRune_3:
  assumes "224 \<le> unat p0" "unat p0 < 240" "128 \<le> unat b1" "unat b1 < 192"
    "unat p0 = 224 \<Longrightarrow> 160 \<le> unat b1" "unat p0 = 237 \<Longrightarrow> unat b1 < 160"
    "128 \<le> unat b2" "unat b2 < 192"
  shows "DecodeRune [p0, b1, b2] =
     (push_bit 12 (ucast (p0 AND 0x0F)) OR push_bit 6 (ucast (b1 AND 0x3F)) OR ucast (b2 AND 0x3F), 3)"
proof -
  consider "unat p0 = 224" | "unat p0 = 237" | "225 \<le> unat p0" "unat p0 \<noteq> 237"
    using assms(1) by linarith
  then show ?thesis
  proof cases
    case 1
    then show ?thesis using assms
      by (simp add: DecodeRune_def first_s2 Let_def acceptRanges_def locb_def hicb_def mask3_def maskx_def byte_cmp)
  next
    case 2
    then show ?thesis using assms
      by (simp add: DecodeRune_def first_s4 Let_def acceptRanges_def locb_def hicb_def mask3_def maskx_def byte_cmp)
  next
    case 3
    then show ?thesis using assms
      by (simp add: DecodeRune_def first_s3 Let_def acceptRanges_def locb_def hicb_def mask3_def maskx_def byte_cmp)
  qed
qed

lemma DecodeRune_4:
  assumes "240 \<le> unat p0" "unat p0 \<le> 244" "128 \<le> unat b1" "unat b1 < 192"
    "unat p0 = 240 \<Longrightarrow> 144 \<le> unat b1" "unat p0 = 244 \<Longrightarrow> unat b1 < 144"
    "128 \<le> unat b2" "unat b2 < 192" "128 \<le> unat b3" "unat b3 < 192"
  shows "DecodeRune [p0, b1, b2, b3] =
     (push_bit 18 (ucast (p0 AND 0x07)) OR push_bit 12 (ucast (b1 AND 0x3F))
        OR push_bit 6 (ucast (b2 AND 0x3F)) OR ucast (b3 AND 0x3F), 4)"
proof -
  consider "unat p0 = 240" | "unat p0 = 244" | "241 \<le> unat p0" "unat p0 < 244"
    using assms(1,2) by linarith
  then show ?thesis
  proof cases
    case 1
    then show ?thesis using assms
      by (simp add: DecodeRune_def first_s5 Let_def acceptRanges_def locb_def hicb_def mask4_def maskx_def byte_cmp)
  next
    case 2
    then show ?thesis using assms
      by (simp add: DecodeRune_def first_s7 Let_def acceptRanges_def locb_def hicb_def mask4_def maskx_def byte_cmp)
  next
    case 3
    then show ?thesis using assms
      by (simp add: DecodeRune_def first_s6 Let_def acceptRanges_def locb_def hicb_def mask4_def maskx_def byte_cmp)
  qed
qed

lemma DecodeRune_4_bad:
  assumes "unat p0 = 244" "144 \<le> unat b1"
  shows "snd (DecodeRune [p0, b1, b2, b3]) = 1"
  using assms
  by (simp add: DecodeRune_def first_s7 Let_def acceptRanges_def locb_def hicb_def byte_cmp)


lemma take_bit_self: fixes j :: uint32 shows "unat j < 2 ^ n \<Longrightarrow> take_bit n j = j"
  by (simp add: word_unat_eq_iff unsigned_take_bit_eq take_bit_nat_eq_self)

lemma split3: fixes n :: nat
  obtains a b c where "n = 4096 * a + 64 * b + c" "b < 64" "c < 64"
    "n div 4096 = a" "n div 64 mod 64 = b" "n mod 64 = c"
proof -
  have "n div 4096 = n div 64 div 64" by (simp add: div_mult2_eq)
  moreover have "n div 64 = 64 * (n div 64 div 64) + n div 64 mod 64" by simp
  moreover have "n = 64 * (n div 64) + n mod 64" by simp
  ultimately have "n = 4096 * (n div 4096) + 64 * (n div 64 mod 64) + n mod 64" by linarith
  then show ?thesis using that [of "n div 4096" "n div 64 mod 64" "n mod 64"] by simp
qed

lemma split4: fixes n :: nat
  obtains a b c d where "n = 262144 * a + 4096 * b + 64 * c + d" "b < 64" "c < 64" "d < 64"
    "n div 262144 = a" "n div 4096 mod 64 = b" "n div 64 mod 64 = c" "n mod 64 = d"
proof -
  obtain a' b c where 1: "n = 4096 * a' + 64 * b + c" "b < 64" "c < 64"
    "n div 4096 = a'" "n div 64 mod 64 = b" "n mod 64 = c" by (rule split3)
  define q r where "q = a' div 64" and "r = a' mod 64"
  have a': "a' = 64 * q + r" and r: "r < 64" by (simp_all add: q_def r_def)
  have q: "n div 262144 = q" using 1(4) by (simp add: q_def div_mult2_eq [symmetric])
  have n: "n = 262144 * q + 4096 * r + 64 * b + c" using 1(1) a' by simp
  have r': "n div 4096 mod 64 = r" using 1(4) by (simp add: r_def)
  show ?thesis by (rule that [OF n r 1(2) 1(3) q r' 1(5) 1(6)])
qed

lemma dec2:
  assumes "128 \<le> unat j" "unat j < 2048"
  shows "DecodeRune [0xC0 OR getBits j 5 6, 0x80 OR getBits j 6 0] = (j, 2)"
proof -
  let ?n = "unat j"
  have lt: "?n div 64 < 32" using assms by (simp add: div_less_iff_less_mult)
  have ge: "2 \<le> ?n div 64" using assms by (simp add: less_eq_div_iff_mult_less_eq)
  have g0: "unat (getBits j 5 6) = ?n div 64" using unat_getBits [of 5 j 6] lt by simp
  have g1: "unat (getBits j 6 0) = ?n mod 64" using unat_getBits [of 6 j 0] by simp
  have u0: "unat (0xC0 OR getBits j 5 6) = 192 + ?n div 64"
    using unat_t2 [of "getBits j 5 6"] g0 lt by simp
  have u1: "unat (0x80 OR getBits j 6 0) = 128 + ?n mod 64"
    using unat_tx [of "getBits j 6 0"] g1 by simp
  have "DecodeRune [0xC0 OR getBits j 5 6, 0x80 OR getBits j 6 0] = (take_bit 11 j, 2)"
    by (subst DecodeRune_2) (use lt ge in \<open>simp_all add: u0 u1 and_t2 and_tx pack2\<close>)
  moreover have "take_bit 11 j = j" using assms by (simp add: take_bit_self)
  ultimately show ?thesis by simp
qed

lemma dec3:
  assumes "2048 \<le> unat j" "unat j < 65536" "unat j < 55296 \<or> 57344 \<le> unat j"
  shows "DecodeRune [0xE0 OR getBits j 4 12, 0x80 OR getBits j 6 6, 0x80 OR getBits j 6 0] = (j, 3)"
proof -
  obtain a b c where d: "unat j = 4096 * a + 64 * b + c" "b < 64" "c < 64"
    "unat j div 4096 = a" "unat j div 64 mod 64 = b" "unat j mod 64 = c" by (rule split3)
  have a: "a < 16" using assms d by linarith
  have g0: "unat (getBits j 4 12) = a" using unat_getBits [of 4 j 12] d a by simp
  have g1: "unat (getBits j 6 6) = b" using unat_getBits [of 6 j 6] d by simp
  have g2: "unat (getBits j 6 0) = c" using unat_getBits [of 6 j 0] d by simp
  have u0: "unat (0xE0 OR getBits j 4 12) = 224 + a" using unat_t3 [of "getBits j 4 12"] g0 a by simp
  have u1: "unat (0x80 OR getBits j 6 6) = 128 + b" using unat_tx [of "getBits j 6 6"] g1 d by simp
  have u2: "unat (0x80 OR getBits j 6 0) = 128 + c" using unat_tx [of "getBits j 6 0"] g2 d by simp
  have r1: "a = 0 \<Longrightarrow> 32 \<le> b" using assms d by linarith
  have r2: "a = 13 \<Longrightarrow> b < 32" using assms d by linarith
  have "DecodeRune [0xE0 OR getBits j 4 12, 0x80 OR getBits j 6 6, 0x80 OR getBits j 6 0] = (take_bit 16 j, 3)"
    by (subst DecodeRune_3) (use a d r1 r2 in \<open>simp_all add: u0 u1 u2 and_t3 and_tx pack3\<close>)
  moreover have "take_bit 16 j = j" using assms by (simp add: take_bit_self)
  ultimately show ?thesis by simp
qed

lemma dec4:
  assumes "65536 \<le> unat j" "unat j < 1114112"
  shows "DecodeRune [0xF0 OR getBits j 3 18, 0x80 OR getBits j 6 12, 0x80 OR getBits j 6 6,
                     0x80 OR getBits j 6 0] = (j, 4)"
proof -
  obtain a b c d where d: "unat j = 262144 * a + 4096 * b + 64 * c + d" "b < 64" "c < 64" "d < 64"
    "unat j div 262144 = a" "unat j div 4096 mod 64 = b" "unat j div 64 mod 64 = c"
    "unat j mod 64 = d" by (rule split4)
  have a: "a \<le> 4" using assms d by linarith
  have g0: "unat (getBits j 3 18) = a" using unat_getBits [of 3 j 18] d a by simp
  have g1: "unat (getBits j 6 12) = b" using unat_getBits [of 6 j 12] d by simp
  have g2: "unat (getBits j 6 6) = c" using unat_getBits [of 6 j 6] d by simp
  have g3: "unat (getBits j 6 0) = d" using unat_getBits [of 6 j 0] d by simp
  have u0: "unat (0xF0 OR getBits j 3 18) = 240 + a" using unat_t4 [of "getBits j 3 18"] g0 a by simp
  have u1: "unat (0x80 OR getBits j 6 12) = 128 + b" using unat_tx [of "getBits j 6 12"] g1 d by simp
  have u2: "unat (0x80 OR getBits j 6 6) = 128 + c" using unat_tx [of "getBits j 6 6"] g2 d by simp
  have u3: "unat (0x80 OR getBits j 6 0) = 128 + d" using unat_tx [of "getBits j 6 0"] g3 d by simp
  have r1: "a = 0 \<Longrightarrow> 16 \<le> b" using assms d by linarith
  have r2: "a = 4 \<Longrightarrow> b < 16" using assms d by linarith
  have "DecodeRune [0xF0 OR getBits j 3 18, 0x80 OR getBits j 6 12, 0x80 OR getBits j 6 6,
                     0x80 OR getBits j 6 0] = (take_bit 21 j, 4)"
    by (subst DecodeRune_4) (use a d r1 r2 in \<open>simp_all add: u0 u1 u2 u3 and_t4 and_tx pack4\<close>)
  moreover have "take_bit 21 j = j" using assms by (simp add: take_bit_self)
  ultimately show ?thesis by simp
qed

lemma dec4_bad:
  assumes "1114112 \<le> unat j" "unat j < 2097152"
  shows "snd (DecodeRune [0xF0 OR getBits j 3 18, 0x80 OR getBits j 6 12, 0x80 OR getBits j 6 6,
                     0x80 OR getBits j 6 0]) = 1"
proof -
  obtain a b c d where d: "unat j = 262144 * a + 4096 * b + 64 * c + d" "b < 64" "c < 64" "d < 64"
    "unat j div 262144 = a" "unat j div 4096 mod 64 = b" "unat j div 64 mod 64 = c"
    "unat j mod 64 = d" by (rule split4)
  have a: "4 \<le> a" "a < 8" using assms d by linarith+
  have g0: "unat (getBits j 3 18) = a" using unat_getBits [of 3 j 18] d a by simp
  have g1: "unat (getBits j 6 12) = b" using unat_getBits [of 6 j 12] d by simp
  have u0: "unat (0xF0 OR getBits j 3 18) = 240 + a" using unat_t4 [of "getBits j 3 18"] g0 a by simp
  have u1: "unat (0x80 OR getBits j 6 12) = 128 + b" using unat_tx [of "getBits j 6 12"] g1 d by simp
  have r1: "a = 4 \<Longrightarrow> 16 \<le> b" using assms d by linarith
  show ?thesis
  proof (cases "a = 4")
    case True
    then show ?thesis using r1 by (intro DecodeRune_4_bad) (simp_all add: u0 u1)
  next
    case False
    then show ?thesis using a by (intro DecodeRune_xx) (simp add: u0)
  qed
qed


lemmas codec_consts = ONE_BYTE_BITS_def TWO_BYTE_BITS_def THREE_BYTE_BITS_def FOUR_BYTE_BITS_def
  UNICODE_INVALID_RANGE_DELTA_def UNICODE_INVALID_RANGE_START_def UNICODE_INVALID_RANGE_END_def

lemma unat_plus: fixes i :: uint32
  shows "unat i + k < 4294967296 \<Longrightarrow> unat (i + of_nat k) = unat i + k"
  by (simp add: unat_word_ariths unsigned_of_nat take_bit_nat_eq_self)

lemma intToRune_tier1: "unat i < 128 \<Longrightarrow> intToRune i = Inr i"
  by (simp add: intToRune_def codec_consts word_less_nat_alt)

lemma intToRune_tier2: "128 \<le> unat i \<Longrightarrow> unat i < 2048 \<Longrightarrow> intToRune i = Inr i"
  by (simp add: intToRune_def codec_consts word_less_nat_alt dec2 checked_def RuneError_def word_unat_eq_iff)

lemma intToRune_tier3_low: "2048 \<le> unat i \<Longrightarrow> unat i < 55296 \<Longrightarrow> intToRune i = Inr i"
  by (simp add: intToRune_def codec_consts word_less_nat_alt word_le_nat_alt dec3 checked_def RuneError_def word_unat_eq_iff)

lemma intToRune_tier3_high:
  assumes "55296 \<le> unat i" "unat i < 63485"
  shows "intToRune i = Inr (i + 2048)"
proof -
  have u: "unat (i + 2048) = unat i + 2048" using unat_plus [of i 2048] assms by simp
  have "DecodeRune [0xE0 OR getBits (i + 2048) 4 12, 0x80 OR getBits (i + 2048) 6 6,
           0x80 OR getBits (i + 2048) 6 0] = (i + 2048, 3)"
    using assms by (intro dec3) (simp_all add: u)
  moreover have "i + 2048 \<noteq> 0xFFFD" using assms u by (simp add: word_unat_eq_iff)
  ultimately show ?thesis using assms
    by (simp add: intToRune_def codec_consts word_less_nat_alt word_le_nat_alt checked_def RuneError_def)
qed

lemma intToRune_tier4:
  assumes "63485 \<le> unat i" "unat i < 1112061"
  shows "intToRune i = Inr (i + 2051)"
proof -
  have u: "unat (i + 2051) = unat i + 2051" using unat_plus [of i 2051] assms by simp
  have "DecodeRune [0xF0 OR getBits (i + 2051) 3 18, 0x80 OR getBits (i + 2051) 6 12,
           0x80 OR getBits (i + 2051) 6 6, 0x80 OR getBits (i + 2051) 6 0] = (i + 2051, 4)"
    using assms by (intro dec4) (simp_all add: u)
  moreover have "i + 2051 \<noteq> 0xFFFD" using assms u by (simp add: word_unat_eq_iff)
  ultimately show ?thesis using assms
    by (simp add: intToRune_def codec_consts word_less_nat_alt word_le_nat_alt checked_def RuneError_def)
qed

lemma intToRune_tier4_fail:
  assumes "1112061 \<le> unat i" "unat i < 2095101"
  shows "intToRune i = Inl (EncodingFailed 4)"
proof -
  have u: "unat (i + 2051) = unat i + 2051" using unat_plus [of i 2051] assms by simp
  have "snd (DecodeRune [0xF0 OR getBits (i + 2051) 3 18, 0x80 OR getBits (i + 2051) 6 12,
           0x80 OR getBits (i + 2051) 6 6, 0x80 OR getBits (i + 2051) 6 0]) = 1"
    using assms by (intro dec4_bad) (simp_all add: u)
  then have "checked 4 (DecodeRune [0xF0 OR getBits (i + 2051) 3 18, 0x80 OR getBits (i + 2051) 6 12,
           0x80 OR getBits (i + 2051) 6 6, 0x80 OR getBits (i + 2051) 6 0]) = Inl (EncodingFailed 4)"
    by (auto simp: checked_def split: prod.splits)
  then show ?thesis using assms
    by (simp add: intToRune_def codec_consts word_less_nat_alt word_le_nat_alt Let_def)
qed

lemma intToRune_too_large: "2095101 \<le> unat i \<Longrightarrow> intToRune i = Inl TooLarge"
  by (simp add: intToRune_def codec_consts word_less_nat_alt word_le_nat_alt)


lemma signed_drop_eq: fixes r :: rune
  assumes "unat r < 2147483648" shows "signed_drop_bit n r = drop_bit n r"
proof -
  have t: "take_bit 31 r = r" using assms by (simp add: take_bit_self)
  have nb: "\<not> bit r m" if "31 \<le> m" for m
    using that by (subst t [symmetric]) (simp add: bit_simps)
  show ?thesis
    by (rule bit_eqI) (auto simp: bit_simps nb)
qed

lemma enc_field1: fixes a :: byte and r :: uint32
  assumes "a AND mask n = 0" "n \<le> 8"
  shows "(a OR ucast (drop_bit k r)) AND mask n = getBits r n k"
proof -
  have "ucast (drop_bit k r) AND (mask n :: byte) = getBits r n k"
    unfolding getBits_take using assms(2) by (intro bit_eqI) (auto simp: bit_simps)
  then show ?thesis using assms(1) by (simp add: bit.conj_disj_distrib2)
qed

lemma enc_field2: fixes a :: byte and r :: uint32
  assumes "a AND mask n = 0" "n \<le> 8"
  shows "(a OR (ucast (drop_bit k r) AND mask n)) AND mask n = getBits r n k"
proof -
  have "ucast (drop_bit k r) AND (mask n :: byte) = getBits r n k"
    unfolding getBits_take using assms(2) by (intro bit_eqI) (auto simp: bit_simps)
  moreover have "(a OR (ucast (drop_bit k r) AND mask n)) AND mask n
      = (a AND mask n) OR (ucast (drop_bit k r) AND mask n)"
    by (simp add: bit.conj_disj_distrib2 and.assoc)
  ultimately show ?thesis using assms(1) by simp
qed

lemmas utf8_consts = rune1Max_def rune2Max_def rune3Max_def surrogateMin_def surrogateMax_def
  MaxRune_def t2_def t3_def t4_def tx_def maskx_def

lemma runeToInt_tier1: "unat r < 128 \<Longrightarrow> runeToInt r = Inr r"
  by (simp add: runeToInt_def codec_consts word_less_nat_alt)

lemma runeToInt_tier2:
  assumes "128 \<le> unat r" "unat r < 2048"
  shows "runeToInt r = Inr r"
proof -
  have s: "signed_drop_bit n r = drop_bit n r" for n using assms by (simp add: signed_drop_eq)
  have e: "EncodeRune [0, 0, 0, 0] r =
      ([0xC0 OR ucast (drop_bit 6 r), 0x80 OR (ucast r AND 0x3F), 0, 0], 2)"
    using assms by (simp add: EncodeRune_def utf8_consts byte_cmp s)
  have f0: "(0xC0 OR ucast (drop_bit 6 r)) AND 0x1F = getBits r 5 6"
    using enc_field1 [of "0xC0" 5 6 r] by (simp add: mask_eq_exp_minus_1)
  have f1: "(0x80 OR (ucast r AND 0x3F)) AND 0x3F = getBits r 6 0"
    using enc_field2 [of "0x80" 6 0 r] by (simp add: mask_eq_exp_minus_1)
  have "take_bit 11 r = r" using assms by (simp add: take_bit_self)
  then show ?thesis using assms
    by (simp add: runeToInt_def codec_consts word_less_nat_alt e f0 f1 pack2)
qed

lemma runeToInt_tier3:
  assumes "2048 \<le> unat r" "unat r < 65536" "unat r < 55296 \<or> 57344 \<le> unat r"
  shows "runeToInt r = Inr (if unat r < 55296 then r else r - 2048)"
proof -
  have s: "signed_drop_bit n r = drop_bit n r" for n using assms by (simp add: signed_drop_eq)
  have e: "EncodeRune [0, 0, 0, 0] r =
      ([0xE0 OR ucast (drop_bit 12 r), 0x80 OR (ucast (drop_bit 6 r) AND 0x3F),
        0x80 OR (ucast r AND 0x3F), 0], 3)"
    using assms by (auto simp add: EncodeRune_def utf8_consts byte_cmp s)
  have f0: "(0xE0 OR ucast (drop_bit 12 r)) AND 0x0F = getBits r 4 12"
    using enc_field1 [of "0xE0" 4 12 r] by (simp add: mask_eq_exp_minus_1)
  have f1: "(0x80 OR (ucast (drop_bit 6 r) AND 0x3F)) AND 0x3F = getBits r 6 6"
    using enc_field2 [of "0x80" 6 6 r] by (simp add: mask_eq_exp_minus_1)
  have f2: "(0x80 OR (ucast r AND 0x3F)) AND 0x3F = getBits r 6 0"
    using enc_field2 [of "0x80" 6 0 r] by (simp add: mask_eq_exp_minus_1)
  have "take_bit 16 r = r" using assms by (simp add: take_bit_self)
  then show ?thesis using assms
    by (auto simp add: runeToInt_def codec_consts word_less_nat_alt word_le_nat_alt e f0 f1 f2 pack3)
qed

lemma runeToInt_tier4:
  assumes "65536 \<le> unat r" "unat r < 1114112"
  shows "runeToInt r = Inr (r - 2051)"
proof -
  have s: "signed_drop_bit n r = drop_bit n r" for n using assms by (simp add: signed_drop_eq)
  have e: "EncodeRune [0, 0, 0, 0] r =
      ([0xF0 OR ucast (drop_bit 18 r), 0x80 OR (ucast (drop_bit 12 r) AND 0x3F),
        0x80 OR (ucast (drop_bit 6 r) AND 0x3F), 0x80 OR (ucast r AND 0x3F)], 4)"
    using assms by (auto simp add: EncodeRune_def utf8_consts byte_cmp s)
  have f0: "(0xF0 OR ucast (drop_bit 18 r)) AND 0x07 = getBits r 3 18"
    using enc_field1 [of "0xF0" 3 18 r] by (simp add: mask_eq_exp_minus_1)
  have f1: "(0x80 OR (ucast (drop_bit 12 r) AND 0x3F)) AND 0x3F = getBits r 6 12"
    using enc_field2 [of "0x80" 6 12 r] by (simp add: mask_eq_exp_minus_1)
  have f2: "(0x80 OR (ucast (drop_bit 6 r) AND 0x3F)) AND 0x3F = getBits r 6 6"
    using enc_field2 [of "0x80" 6 6 r] by (simp add: mask_eq_exp_minus_1)
  have f3: "(0x80 OR (ucast r AND 0x3F)) AND 0x3F = getBits r 6 0"
    using enc_field2 [of "0x80" 6 0 r] by (simp add: mask_eq_exp_minus_1)
  have "take_bit 21 r = r" using assms by (simp add: take_bit_self)
  then show ?thesis using assms
    by (simp add: runeToInt_def codec_consts word_less_nat_alt word_le_nat_alt e f0 f1 f2 f3 pack4)
qed


lemma intToRune_Inr_cases:
  assumes "intToRune i = Inr r"
  obtains (tier1) "unat i < 128" "r = i"
  | (tier2) "128 \<le> unat i" "unat i < 2048" "r = i"
  | (tier3_low) "2048 \<le> unat i" "unat i < 55296" "r = i"
  | (tier3_high) "55296 \<le> unat i" "unat i < 63485" "r = i + 2048" "unat r = unat i + 2048"
  | (tier4) "63485 \<le> unat i" "unat i < 1112061" "r = i + 2051" "unat r = unat i + 2051"
proof (cases "unat i < 128")
  case True
  have "r = i" using assms intToRune_tier1 [OF True] by simp
  then show ?thesis using True by (rule tier1 [rotated])
next
  case a: False
  show ?thesis
  proof (cases "unat i < 2048")
    case True
    have a': "128 \<le> unat i" using a by simp
    have "r = i" using assms intToRune_tier2 [OF a' True] by simp
    then show ?thesis by (rule tier2 [OF a' True])
  next
    case b: False
    show ?thesis
    proof (cases "unat i < 55296")
      case True
      have b': "2048 \<le> unat i" using b by simp
      have "r = i" using assms intToRune_tier3_low [OF b' True] by simp
      then show ?thesis by (rule tier3_low [OF b' True])
    next
      case c: False
      show ?thesis
      proof (cases "unat i < 63485")
        case True
        have c': "55296 \<le> unat i" using c by simp
        have r: "r = i + 2048" using assms intToRune_tier3_high [OF c' True] by simp
        have "unat (i + 2048) = unat i + 2048" using unat_plus [of i 2048] True by simp
        then have "unat r = unat i + 2048" using r by simp
        then show ?thesis by (rule tier3_high [OF c' True r])
      next
        case d: False
        show ?thesis
        proof (cases "unat i < 1112061")
          case True
          have d': "63485 \<le> unat i" using d by simp
          have r: "r = i + 2051" using assms intToRune_tier4 [OF d' True] by simp
          have "unat (i + 2051) = unat i + 2051" using unat_plus [of i 2051] True by simp
          then have "unat r = unat i + 2051" using r by simp
          then show ?thesis by (rule tier4 [OF d' True r])
        next
          case e: False
          have e': "1112061 \<le> unat i" using e by simp
          show ?thesis
          proof (cases "unat i < 2095101")
            case True
            then show ?thesis using assms intToRune_tier4_fail [OF e' True] by simp
          next
            case False
            then have "2095101 \<le> unat i" by simp
            then show ?thesis using assms intToRune_too_large [of i] by simp
          qed
        qed
      qed
    qed
  qed
qed

lemma decode_encoded: "intToRune i = Inr r \<Longrightarrow> runeToInt r = Inr i"
proof (erule intToRune_Inr_cases)
  assume "unat i < 128" "r = i"
  then show ?thesis by (simp add: runeToInt_tier1)
next
  assume "128 \<le> unat i" "unat i < 2048" "r = i"
  then show ?thesis by (simp add: runeToInt_tier2)
next
  assume "2048 \<le> unat i" "unat i < 55296" "r = i"
  then show ?thesis by (simp add: runeToInt_tier3)
next
  assume "55296 \<le> unat i" "unat i < 63485" "r = i + 2048" "unat r = unat i + 2048"
  then show ?thesis using runeToInt_tier3 [of r] by simp
next
  assume "63485 \<le> unat i" "unat i < 1112061" "r = i + 2051" "unat r = unat i + 2051"
  then show ?thesis using runeToInt_tier4 [of r] by simp
qed

lemmas codec_eval = intToRune_def runeToInt_def EncodeRune_def checked_def DecodeRune_def
  getBits_def utf8_first_def acceptRanges_def codec_consts utf8_consts RuneError_def Let_def
  locb_def hicb_def mask2_def mask3_def mask4_def

section \<open>Round trips of the codec\<close>

text \<open>
  Claim C1. Whenever \<open>intToRune\<close> returns a rune for \<open>i\<close>, that is for every \<open>i\<close> of
  its valid domain, \<open>runeToInt\<close> of that rune returns exactly \<open>i\<close>.
\<close>

theorem runeToInt_intToRune: "intToRune i = Inr r \<Longrightarrow> runeToInt r = Inr i"
  by (rule decode_encoded)

theorem runeToInt_intToRune_witness:
  "intToRune 63484 = Inr 65532 \<and> runeToInt 65532 = Inr 63484
   \<and> intToRune 1112060 = Inr 1114111 \<and> runeToInt 1114111 = Inr 1112060"
proof -
  have a: "intToRune 63484 = Inr 65532" by (simp add: codec_eval)
  have b: "intToRune 1112060 = Inr 1114111" by (simp add: codec_eval)
  show ?thesis using a b runeToInt_intToRune [OF a] runeToInt_intToRune [OF b] by simp
qed

text \<open>
  Claim C9. For every rune \<open>r\<close> that \<open>intToRune\<close> returns, \<open>runeToInt r\<close> returns an
  integer whose encoding is \<open>r\<close> again: decoding and then encoding is the
  identity on the produced runes.
\<close>

theorem intToRune_runeToInt: "intToRune i = Inr r \<Longrightarrow> \<exists>j. runeToInt r = Inr j \<and> intToRune j = Inr r"
  using decode_encoded by blast

theorem intToRune_runeToInt_witness:
  "intToRune 55296 = Inr 57344 \<and> (\<exists>j. runeToInt 57344 = Inr j \<and> intToRune j = Inr 57344)"
proof -
  have a: "intToRune 55296 = Inr 57344" by (simp add: codec_eval)
  show ?thesis using a intToRune_runeToInt [OF a] by simp
qed

section \<open>The runes that are produced\<close>

text \<open>
  Claim C5. A rune returned by \<open>intToRune\<close> is never a surrogate, that is never in
  the range from \<open>0xD800\<close> to \<open>0xDFFF\<close>, and is none of the three values
  \<open>0xFFFD\<close>, \<open>0xFFFE\<close>, \<open>0xFFFF\<close> at the top of the 16-bit range.
\<close>

theorem intToRune_avoids_reserved:
  "intToRune i = Inr r \<Longrightarrow>
     \<not> (0xD800 \<le> r \<and> r \<le> 0xDFFF) \<and> r \<noteq> 0xFFFD \<and> r \<noteq> 0xFFFE \<and> r \<noteq> 0xFFFF"
  by (erule intToRune_Inr_cases) (simp_all add: byte_cmp)

theorem intToRune_avoids_reserved_witness:
  "intToRune 55295 = Inr 55295 \<and> intToRune 55296 = Inr 57344 \<and> intToRune 63484 = Inr 65532
   \<and> intToRune 63485 = Inr 65536
   \<and> \<not> (0xD800 \<le> (57344 :: rune) \<and> (57344 :: rune) \<le> 0xDFFF) \<and> (65532 :: rune) \<noteq> 0xFFFD"
proof -
  have a: "intToRune 55295 = Inr 55295" by (simp add: codec_eval)
  have b: "intToRune 55296 = Inr 57344" by (simp add: codec_eval)
  have c: "intToRune 63484 = Inr 65532" by (simp add: codec_eval)
  have d: "intToRune 63485 = Inr 65536" by (simp add: codec_eval)
  show ?thesis
    using a b c d intToRune_avoids_reserved [OF b] intToRune_avoids_reserved [OF c] by simp
qed


lemma EncodeRune_size:
  "snd (EncodeRune p r) =
     (if unat r < 128 then 1 else if unat r < 2048 then 2
      else if unat r < 55296 \<or> 57344 \<le> unat r \<and> unat r < 65536 then 3
      else if 65536 \<le> unat r \<and> unat r < 1114112 then 4 else 3)"
  by (simp add: EncodeRune_def utf8_consts byte_cmp)

text \<open>
  Claim C6. The tiers switch exactly at the inputs \<open>2^7\<close>, \<open>2^11\<close> and
  \<open>2^16 - 2048 - 3\<close>. Below \<open>2^7\<close> the rune is \<open>i\<close> itself, of one UTF-8 unit; from
  \<open>2^7\<close> to below \<open>2^11\<close> it is what \<open>utf8.DecodeRune\<close> reads from the two packed
  bytes, with size 2; from \<open>2^11\<close> to below \<open>2^16 - 2048 - 3\<close> what it reads from the
  three packed bytes, with size 3; and from there on what it reads from the
  four packed bytes, with size 4. The number of units of the rune, the size that
  \<open>utf8.EncodeRune\<close> returns for it, is 1, 2, 3 and 4 on these four ranges.
\<close>

theorem intToRune_tier_boundaries:
  assumes "intToRune i = Inr r"
  shows "snd (EncodeRune [0, 0, 0, 0] r) =
      (if i < 2 ^ 7 then 1 else if i < 2 ^ 11 then 2 else if i < 2 ^ 16 - 2048 - 3 then 3 else 4)
    \<and> (i < 2 ^ 7 \<longrightarrow> r = i)
    \<and> (2 ^ 7 \<le> i \<and> i < 2 ^ 11 \<longrightarrow>
          DecodeRune [0xC0 OR getBits i 5 6, 0x80 OR getBits i 6 0] = (r, 2))
    \<and> (2 ^ 11 \<le> i \<and> i < 2 ^ 16 - 2048 - 3 \<longrightarrow>
          (let j = (if 0xD800 \<le> i then i + 2048 else i) in
           DecodeRune [0xE0 OR getBits j 4 12, 0x80 OR getBits j 6 6, 0x80 OR getBits j 6 0]
             = (r, 3)))
    \<and> (2 ^ 16 - 2048 - 3 \<le> i \<longrightarrow>
          (let j = i + 2051 in
           DecodeRune [0xF0 OR getBits j 3 18, 0x80 OR getBits j 6 12, 0x80 OR getBits j 6 6,
                       0x80 OR getBits j 6 0] = (r, 4)))"
proof -
  have 1: "snd (EncodeRune [0, 0, 0, 0] r) =
      (if i < 2 ^ 7 then 1 else if i < 2 ^ 11 then 2 else if i < 2 ^ 16 - 2048 - 3 then 3 else 4)
    \<and> (i < 2 ^ 7 \<longrightarrow> r = i)"
    using assms by (rule intToRune_Inr_cases) (simp_all add: EncodeRune_size byte_cmp)
  have 2: "DecodeRune [0xC0 OR getBits i 5 6, 0x80 OR getBits i 6 0] = (r, 2)"
    if "2 ^ 7 \<le> i \<and> i < 2 ^ 11"
  proof -
    have u: "128 \<le> unat i" "unat i < 2048" using that by (simp_all add: byte_cmp)
    then have "r = i" using assms intToRune_tier2 [of i] by simp
    then show ?thesis using dec2 [OF u] by simp
  qed
  have 3: "DecodeRune [0xE0 OR getBits j 4 12, 0x80 OR getBits j 6 6, 0x80 OR getBits j 6 0]
             = (r, 3)"
    if "2 ^ 11 \<le> i \<and> i < 2 ^ 16 - 2048 - 3" and j: "j = (if 0xD800 \<le> i then i + 2048 else i)"
    for j
  proof (cases "unat i < 55296")
    case True
    have u: "2048 \<le> unat i" using that by (simp add: byte_cmp)
    have "r = i" using assms intToRune_tier3_low [OF u True] by simp
    moreover have "j = i" using True j by (simp add: byte_cmp)
    ultimately show ?thesis using dec3 [of i] u True by simp
  next
    case False
    then have u: "55296 \<le> unat i" "unat i < 63485" using that by (simp_all add: byte_cmp)
    have r: "r = i + 2048" using assms intToRune_tier3_high [OF u] by simp
    have "unat (i + 2048) = unat i + 2048" using unat_plus [of i 2048] u by simp
    then have "DecodeRune [0xE0 OR getBits (i + 2048) 4 12, 0x80 OR getBits (i + 2048) 6 6,
        0x80 OR getBits (i + 2048) 6 0] = (i + 2048, 3)"
      using u by (intro dec3) simp_all
    moreover have "j = i + 2048" using u j by (simp add: byte_cmp)
    ultimately show ?thesis using r by simp
  qed
  have 4: "DecodeRune [0xF0 OR getBits (i + 2051) 3 18, 0x80 OR getBits (i + 2051) 6 12,
        0x80 OR getBits (i + 2051) 6 6, 0x80 OR getBits (i + 2051) 6 0] = (r, 4)"
    if "2 ^ 16 - 2048 - 3 \<le> i"
  proof -
    have u: "63485 \<le> unat i" using that by (simp add: byte_cmp)
    have v: "unat i < 1112061"
    proof (rule ccontr)
      assume "\<not> unat i < 1112061"
      then have "1112061 \<le> unat i" by simp
      then show False
        using assms intToRune_tier4_fail [of i] intToRune_too_large [of i]
        by (cases "unat i < 2095101") simp_all
    qed
    have r: "r = i + 2051" using assms intToRune_tier4 [OF u v] by simp
    have "unat (i + 2051) = unat i + 2051" using unat_plus [of i 2051] v by simp
    then have "DecodeRune [0xF0 OR getBits (i + 2051) 3 18, 0x80 OR getBits (i + 2051) 6 12,
        0x80 OR getBits (i + 2051) 6 6, 0x80 OR getBits (i + 2051) 6 0] = (i + 2051, 4)"
      using u v by (intro dec4) simp_all
    then show ?thesis using r by simp
  qed
  show ?thesis unfolding Let_def using 1 2 3 [OF _ refl] 4 by blast
qed

theorem intToRune_tier_boundaries_witness:
  "intToRune 127 = Inr 127 \<and> snd (EncodeRune [0, 0, 0, 0] 127) = 1
   \<and> intToRune 128 = Inr 128 \<and> snd (EncodeRune [0, 0, 0, 0] 128) = 2
   \<and> intToRune 2047 = Inr 2047 \<and> snd (EncodeRune [0, 0, 0, 0] 2047) = 2
   \<and> intToRune 2048 = Inr 2048 \<and> snd (EncodeRune [0, 0, 0, 0] 2048) = 3
   \<and> intToRune 63484 = Inr 65532 \<and> snd (EncodeRune [0, 0, 0, 0] 65532) = 3
   \<and> intToRune 63485 = Inr 65536 \<and> snd (EncodeRune [0, 0, 0, 0] 65536) = 4"
proof -
  have a: "intToRune 127 = Inr 127" by (simp add: codec_eval)
  have b: "intToRune 128 = Inr 128" by (simp add: codec_eval)
  have c: "intToRune 2047 = Inr 2047" by (simp add: codec_eval)
  have d: "intToRune 2048 = Inr 2048" by (simp add: codec_eval)
  have e: "intToRune 63484 = Inr 65532" by (simp add: codec_eval)
  have f: "intToRune 63485 = Inr 65536" by (simp add: codec_eval)
  show ?thesis
    using a b c d e f intToRune_tier_boundaries [OF a] intToRune_tier_boundaries [OF b]
      intToRune_tier_boundaries [OF c] intToRune_tier_boundaries [OF d]
      intToRune_tier_boundaries [OF e] intToRune_tier_boundaries [OF f]
    by simp
qed

section \<open>The end of the domain\<close>

text \<open>
  Claim C3 as it is stated, that \<open>intToRune\<close> succeeds on every input of the range
  from \<open>2^16 - 2048 - 3\<close> to below \<open>2^21 - 2048 - 3\<close>, fails at \<open>1112061\<close>: the
  input lies in that range, and the four bytes packed for \<open>1112061 + 2051 =
  0x110000\<close> are not a UTF-8 sequence, so the self-check of the branch panics.
\<close>

theorem intToRune_tier4_counterexample:
  "(2 ^ 16 - 2048 - 3 \<le> (1112061 :: uint32) \<and> (1112061 :: uint32) < 2 ^ 21 - 2048 - 3)
   \<and> intToRune 1112061 = Inl (EncodingFailed 4)"
  by (simp add: codec_eval)

text \<open>
  Claim C3, amended. \<open>intToRune\<close> succeeds through the four-unit form for every
  \<open>i\<close> from \<open>2^16 - 2048 - 3 = 63485\<close> to below \<open>0x110000 - 2048 - 3 = 1112061\<close>:
  the rune is \<open>i + 2051\<close>, with no wrap-around, read by \<open>utf8.DecodeRune\<close> from the
  four packed bytes with size 4. It panics for exactly the inputs from \<open>1112061\<close>
  on: in the self-check of the four-unit branch below \<open>2^21 - 2048 - 3 = 2095101\<close>,
  and in the final range panic from there on.
\<close>

theorem intToRune_tier4_domain:
  "(63485 \<le> i \<and> i < 1112061 \<longrightarrow>
      intToRune i = Inr (i + 2051) \<and> unat (i + 2051) = unat i + 2051
      \<and> DecodeRune [0xF0 OR getBits (i + 2051) 3 18, 0x80 OR getBits (i + 2051) 6 12,
            0x80 OR getBits (i + 2051) 6 6, 0x80 OR getBits (i + 2051) 6 0] = (i + 2051, 4)
      \<and> snd (EncodeRune [0, 0, 0, 0] (i + 2051)) = 4)
   \<and> (1112061 \<le> i \<and> i < 2095101 \<longrightarrow> intToRune i = Inl (EncodingFailed 4))
   \<and> (2095101 \<le> i \<longrightarrow> intToRune i = Inl TooLarge)
   \<and> ((\<exists>e. intToRune i = Inl e) \<longleftrightarrow> 1112061 \<le> i)"
proof -
  have 1: "intToRune i = Inr (i + 2051) \<and> unat (i + 2051) = unat i + 2051
      \<and> DecodeRune [0xF0 OR getBits (i + 2051) 3 18, 0x80 OR getBits (i + 2051) 6 12,
            0x80 OR getBits (i + 2051) 6 6, 0x80 OR getBits (i + 2051) 6 0] = (i + 2051, 4)
      \<and> snd (EncodeRune [0, 0, 0, 0] (i + 2051)) = 4" if "63485 \<le> i" "i < 1112061"
  proof -
    have u: "63485 \<le> unat i" "unat i < 1112061" using that by (simp_all add: byte_cmp)
    have p: "unat (i + 2051) = unat i + 2051" using unat_plus [of i 2051] u by simp
    have d: "DecodeRune [0xF0 OR getBits (i + 2051) 3 18, 0x80 OR getBits (i + 2051) 6 12,
        0x80 OR getBits (i + 2051) 6 6, 0x80 OR getBits (i + 2051) 6 0] = (i + 2051, 4)"
      using u p by (intro dec4) simp_all
    have e: "snd (EncodeRune [0, 0, 0, 0] (i + 2051)) = 4" using u p by (simp add: EncodeRune_size)
    show ?thesis using u p d e by (simp add: intToRune_tier4)
  qed
  have 2: "intToRune i = Inl (EncodingFailed 4)" if "1112061 \<le> i" "i < 2095101"
    using that by (simp add: intToRune_tier4_fail byte_cmp)
  have 3: "intToRune i = Inl TooLarge" if "2095101 \<le> i"
    using that by (simp add: intToRune_too_large byte_cmp)
  have 4: "\<exists>r. intToRune i = Inr r" if "i < 1112061"
  proof -
    have u: "unat i < 1112061" using that by (simp add: byte_cmp)
    show ?thesis
      using u intToRune_tier1 [of i] intToRune_tier2 [of i] intToRune_tier3_low [of i]
        intToRune_tier3_high [of i] intToRune_tier4 [of i]
      by (metis not_le_imp_less)
  qed
  have 5: "(\<exists>e. intToRune i = Inl e) \<longleftrightarrow> 1112061 \<le> i"
  proof
    assume "\<exists>e. intToRune i = Inl e"
    then show "1112061 \<le> i" using 4 by (cases "i < 1112061") auto
  next
    assume "1112061 \<le> i"
    then show "\<exists>e. intToRune i = Inl e" using 2 3 by (cases "i < 2095101") auto
  qed
  show ?thesis using 1 2 3 5 by blast
qed

theorem intToRune_tier4_domain_witness:
  "intToRune 63485 = Inr 65536 \<and> intToRune 1112060 = Inr 1114111
   \<and> snd (EncodeRune [0, 0, 0, 0] 1114111) = 4
   \<and> intToRune 1112061 = Inl (EncodingFailed 4) \<and> intToRune 2095100 = Inl (EncodingFailed 4)
   \<and> intToRune 2095101 = Inl TooLarge"
  using intToRune_tier4_domain [of 63485] intToRune_tier4_domain [of 1112060]
    intToRune_tier4_domain [of 1112061] intToRune_tier4_domain [of 2095100]
    intToRune_tier4_domain [of 2095101]
  by simp

section \<open>The action of a change\<close>

text \<open>
  Claim C2. A side is absent when it \<open>Equal\<close>s the zero value \<open>empty\<close>. \<open>Action\<close>
  returns the malformed-change error when both sides are absent, \<open>Insert\<close> when
  only \<open>From\<close> is, \<open>Delete\<close> when only \<open>To\<close> is, and \<open>Modify\<close> when both sides are
  present.
\<close>

theorem Change_Action_cases:
  fixes c :: "('m::zero, 'h::zero, 'b) Change"
  shows
  "(ChangeEntry_Equal teq eeq (From c) empty \<and> ChangeEntry_Equal teq eeq (To c) empty
      \<longrightarrow> Change_Action teq eeq c = Inl MalformedChange)
   \<and> (ChangeEntry_Equal teq eeq (From c) empty \<and> \<not> ChangeEntry_Equal teq eeq (To c) empty
      \<longrightarrow> Change_Action teq eeq c = Inr Insert)
   \<and> (\<not> ChangeEntry_Equal teq eeq (From c) empty \<and> ChangeEntry_Equal teq eeq (To c) empty
      \<longrightarrow> Change_Action teq eeq c = Inr Delete)
   \<and> (\<not> ChangeEntry_Equal teq eeq (From c) empty \<and> \<not> ChangeEntry_Equal teq eeq (To c) empty
      \<longrightarrow> Change_Action teq eeq c = Inr Modify)"
  by (simp add: Change_Action_def)

theorem Change_Action_cases_witness:
  "Change_Action (=) (=) \<lparr>From = empty, To = (empty :: (nat, nat, nat) ChangeEntry)\<rparr> = Inl MalformedChange
   \<and> Change_Action (=) (=) \<lparr>From = empty, To = ex_entry ''a'' 1\<rparr> = Inr Insert
   \<and> Change_Action (=) (=) \<lparr>From = ex_entry ''a'' 1, To = empty\<rparr> = Inr Delete
   \<and> Change_Action (=) (=) \<lparr>From = ex_entry ''a'' 1, To = ex_entry ''a'' 2\<rparr> = Inr Modify"
proof -
  have e: "ChangeEntry_Equal (=) (=) (empty :: (nat, nat, nat) ChangeEntry) empty"
    by (simp add: ChangeEntry_Equal_def)
  have n: "\<not> ChangeEntry_Equal (=) (=) (ex_entry ''a'' m) empty" for m
    by (simp add: ChangeEntry_Equal_def ex_entry_def empty_def)
  show ?thesis
    using Change_Action_cases [of "(=)" "(=)" "\<lparr>From = empty, To = (empty :: (nat, nat, nat) ChangeEntry)\<rparr>"]
      Change_Action_cases [of "(=)" "(=)" "\<lparr>From = empty, To = ex_entry ''a'' 1\<rparr>"]
      Change_Action_cases [of "(=)" "(=)" "\<lparr>From = ex_entry ''a'' 1, To = empty\<rparr>"]
      Change_Action_cases [of "(=)" "(=)" "\<lparr>From = ex_entry ''a'' 1, To = ex_entry ''a'' 2\<rparr>"]
      e n by simp
qed

section \<open>The files of a change\<close>

lemmas ex_eval = Change_Files_def Change_Action_def ChangeEntry_Equal_def side_file_def
  ex_change_def ex_insert_def ex_delete_def ex_entry_def empty_def Let_def

text \<open>
  Claim C4 as it is stated fails on a modification whose \<open>From\<close> side is a file and
  whose \<open>To\<close> side is not: \<open>Files\<close> returns \<open>nil\<close> for both sides, and the file of
  the \<open>From\<close> side is not returned.
\<close>

theorem Change_Files_counterexample:
  "Change_Action (=) (=) (ex_change ''a'' 1 2) = Inr Modify
   \<and> ex_isFile (te_Mode (TreeEntry (From (ex_change ''a'' 1 2))))
   \<and> \<not> ex_isFile (te_Mode (TreeEntry (To (ex_change ''a'' 1 2))))
   \<and> Change_Files (=) (=) ex_isFile (ex_change ''a'' 1 2) = Inr (None, None)"
  by (simp add: ex_eval ex_isFile_def)

text \<open>
  Claim C4, amended. For a change whose \<open>Action\<close> succeeds, and whose sides carry a
  tree where \<open>Files\<close> reads it, \<open>Files\<close> returns without error: when every present
  side has a file mode, the file of each present side and \<open>nil\<close> for the absent
  one; as soon as one present side has a mode that is not a file, \<open>nil\<close> for both
  sides.
\<close>

theorem Change_Files_result:
  assumes "Change_Action teq eeq c = Inr a"
    and "a \<noteq> Delete \<Longrightarrow> isFile (te_Mode (TreeEntry (To c))) \<Longrightarrow> Tree (To c) \<noteq> None"
    and "a \<noteq> Insert \<Longrightarrow> (a = Modify \<Longrightarrow> isFile (te_Mode (TreeEntry (To c)))) \<Longrightarrow>
         isFile (te_Mode (TreeEntry (From c))) \<Longrightarrow> Tree (From c) \<noteq> None"
  shows "Change_Files teq eeq isFile c =
     Inr (if (a \<noteq> Delete \<longrightarrow> isFile (te_Mode (TreeEntry (To c))))
             \<and> (a \<noteq> Insert \<longrightarrow> isFile (te_Mode (TreeEntry (From c))))
          then (if a = Insert then None else Some (file_view (From c)),
                if a = Delete then None else Some (file_view (To c)))
          else (None, None))"
  using assms
  by (cases a) (auto simp: Change_Files_def side_file_def file_view_def Let_def)

theorem Change_Files_result_witness:
  "Change_Files (=) (=) ex_isFile (ex_change ''a'' 1 1)
     = Inr (Some (newFile ''a'' 1 7 3 0), Some (newFile ''a'' 1 7 3 0))
   \<and> Change_Files (=) (=) ex_isFile (ex_change ''a'' 2 1) = Inr (None, None)
   \<and> Change_Files (=) (=) ex_isFile (ex_insert ''a'' 1) = Inr (None, Some (newFile ''a'' 1 7 3 0))
   \<and> Change_Files (=) (=) ex_isFile (ex_delete ''a'' 1) = Inr (Some (newFile ''a'' 1 7 3 0), None)
   \<and> Change_Files (=) (=) ex_isFile (ex_insert ''a'' 2) = Inr (None, None)"
proof -
  have a: "Change_Action (=) (=) (ex_change ''a'' 1 1) = Inr Modify" by (simp add: ex_eval)
  have b: "Change_Action (=) (=) (ex_change ''a'' 2 1) = Inr Modify" by (simp add: ex_eval)
  have c: "Change_Action (=) (=) (ex_insert ''a'' 1) = Inr Insert" by (simp add: ex_eval)
  have d: "Change_Action (=) (=) (ex_delete ''a'' 1) = Inr Delete" by (simp add: ex_eval)
  have e: "Change_Action (=) (=) (ex_insert ''a'' 2) = Inr Insert" by (simp add: ex_eval)
  show ?thesis
    using Change_Files_result [OF a, of ex_isFile] Change_Files_result [OF b, of ex_isFile]
      Change_Files_result [OF c, of ex_isFile] Change_Files_result [OF d, of ex_isFile]
      Change_Files_result [OF e, of ex_isFile]
    by (simp add: file_view_def ex_change_def ex_insert_def ex_delete_def ex_entry_def ex_isFile_def)
qed

section \<open>The order of a sorted change set\<close>

declare insertionSort_inner.simps [simp del]
declare insertionSort_outer.simps [simp del]

lemma strings_Compare_less: "strings_Compare a b < 0 \<longleftrightarrow> a < b"
  by (simp add: strings_Compare_def)

lemma IsSorted_sorted:
  assumes "IsSorted teq eeq c"
  shows "sorted (map (Change_name teq eeq) c)"
proof -
  have "map (Change_name teq eeq) c ! i \<le> map (Change_name teq eeq) c ! Suc i"
    if "Suc i < length c" for i
  proof -
    have "Suc i \<in> set [1..<Changes_Len c]" using that by (simp add: Changes_Len_def)
    then have "\<not> Changes_Less teq eeq c (Suc i) (Suc i - 1)"
      using assms unfolding IsSorted_def list_all_iff by blast
    then show ?thesis using that
      by (simp add: Changes_Less_def strings_Compare_less not_less)
  qed
  then show ?thesis by (simp add: sorted_iff_nth_Suc)
qed

lemma sorted_IsSorted:
  assumes "sorted (map (Change_name teq eeq) c)"
  shows "IsSorted teq eeq c"
proof -
  have "\<not> Changes_Less teq eeq c i (i - 1)" if "i \<in> set [1..<Changes_Len c]" for i
  proof -
    have i: "1 \<le> i" "i < length c" using that by (simp_all add: Changes_Len_def)
    then have "map (Change_name teq eeq) c ! (i - 1) \<le> map (Change_name teq eeq) c ! i"
      using assms by (intro sorted_nth_mono) simp_all
    then show ?thesis using i
      by (simp add: Changes_Less_def strings_Compare_less not_less)
  qed
  then show ?thesis unfolding IsSorted_def list_all_iff by blast
qed

lemma Swap_adjacent:
  "Changes_Swap (pre @ y # x # rest) (Suc (length pre)) (length pre) = pre @ x # y # rest"
  by (simp add: Changes_Swap_def nth_append list_update_append)

lemma inner_insert:
  "insertionSort_inner teq eeq (pre @ x # rest) 0 (length pre)
     = rev (insert_desc (Change_name teq eeq) x (rev pre)) @ rest"
proof (induction pre arbitrary: rest rule: rev_induct)
  case Nil
  show ?case by (subst insertionSort_inner.simps) simp
next
  case (snoc y ps)
  have l: "Changes_Less teq eeq ((ps @ [y]) @ x # rest) (length (ps @ [y])) (length (ps @ [y]) - 1)
      \<longleftrightarrow> Change_name teq eeq x < Change_name teq eeq y"
    by (simp add: Changes_Less_def strings_Compare_less nth_append)
  show ?case
  proof (cases "Change_name teq eeq x < Change_name teq eeq y")
    case True
    have "insertionSort_inner teq eeq ((ps @ [y]) @ x # rest) 0 (length (ps @ [y]))
        = insertionSort_inner teq eeq (ps @ x # y # rest) 0 (length ps)"
      using True l Swap_adjacent [of ps y x rest]
      by (subst insertionSort_inner.simps) simp
    then show ?thesis using True snoc [of "y # rest"] by simp
  next
    case False
    then show ?thesis using l by (subst insertionSort_inner.simps) simp
  qed
qed

lemma length_insert_desc: "length (insert_desc f x ys) = Suc (length ys)"
  by (induction ys) auto

lemma mset_insert_desc: "mset (insert_desc f x ys) = add_mset x (mset ys)"
  by (induction ys) auto

lemma set_insert_desc: "set (insert_desc f x ys) = insert x (set ys)"
  by (induction ys) auto

lemma sorted_insert_desc:
  "sorted (rev (map f ys)) \<Longrightarrow> sorted (rev (map f (insert_desc f x ys)))"
proof (induction ys)
  case Nil
  then show ?case by simp
next
  case (Cons y ys)
  then show ?case
    by (auto simp: sorted_append set_insert_desc)
qed

lemma outer_fold:
  "insertionSort_outer teq eeq (pre @ rest) 0 (length (pre @ rest)) (length pre)
     = foldl (\<lambda>acc x. rev (insert_desc (Change_name teq eeq) x (rev acc))) pre rest"
proof (induction rest arbitrary: pre)
  case Nil
  show ?case by (subst insertionSort_outer.simps) simp
next
  case (Cons x xs)
  let ?p = "rev (insert_desc (Change_name teq eeq) x (rev pre))"
  have "insertionSort_outer teq eeq (pre @ x # xs) 0 (length (pre @ x # xs)) (length pre)
      = insertionSort_outer teq eeq (?p @ xs) 0 (length (?p @ xs)) (length ?p)"
    by (subst insertionSort_outer.simps) (simp add: inner_insert length_insert_desc)
  then show ?case using Cons [of ?p] by simp
qed

lemma fold_insert_props:
  "mset (foldl (\<lambda>acc x. rev (insert_desc f x (rev acc))) pre rest) = mset pre + mset rest"
  "sorted (map f pre) \<Longrightarrow> sorted (map f (foldl (\<lambda>acc x. rev (insert_desc f x (rev acc))) pre rest))"
proof (induction rest arbitrary: pre)
  case Nil
  { case 1 show ?case by simp }
  { case 2 then show ?case by simp }
next
  case (Cons x xs)
  { case 1 show ?case using Cons(1) [of "rev (insert_desc f x (rev pre))"]
      by (simp add: mset_insert_desc) }
  { case 2
    have "sorted (rev (map f (insert_desc f x (rev pre))))"
      using 2 by (intro sorted_insert_desc) (simp add: rev_map)
    then show ?case using Cons(2) [of "rev (insert_desc f x (rev pre))"]
      by (simp add: rev_map) }
qed

lemma Changes_Sort_fold:
  "Changes_Sort teq eeq c =
     (case c of [] \<Rightarrow> []
      | x # xs \<Rightarrow> foldl (\<lambda>acc x. rev (insert_desc (Change_name teq eeq) x (rev acc))) [x] xs)"
proof (cases c)
  case Nil
  then show ?thesis
    by (simp add: Changes_Sort_def insertionSort_def Changes_Len_def insertionSort_outer.simps)
next
  case (Cons x xs)
  then show ?thesis
    using outer_fold [of teq eeq "[x]" xs]
    by (simp add: Changes_Sort_def insertionSort_def Changes_Len_def)
qed

lemma mset_Changes_Sort: "mset (Changes_Sort teq eeq c) = mset c"
  by (cases c) (simp_all add: Changes_Sort_fold fold_insert_props(1))

lemma sorted_Changes_Sort: "sorted (map (Change_name teq eeq) (Changes_Sort teq eeq c))"
  by (cases c) (simp_all add: Changes_Sort_fold fold_insert_props(2))

lemma filter_insert_desc:
  "filter (\<lambda>y. f y = k) (rev (insert_desc f x ys))
     = filter (\<lambda>y. f y = k) (rev ys) @ (if f x = k then [x] else [])"
  by (induction ys) auto

lemma fold_insert_stable:
  "filter (\<lambda>y. f y = k) (foldl (\<lambda>acc x. rev (insert_desc f x (rev acc))) pre rest)
     = filter (\<lambda>y. f y = k) (pre @ rest)"
  by (induction rest arbitrary: pre) (simp_all add: filter_insert_desc)

lemma Changes_Sort_stable:
  "filter (\<lambda>x. Change_name teq eeq x = k) (Changes_Sort teq eeq c)
     = filter (\<lambda>x. Change_name teq eeq x = k) c"
  by (cases c) (simp_all add: Changes_Sort_fold fold_insert_stable)

text \<open>
  Claim C7. Sorting a change set, through \<open>Len\<close>, \<open>Less\<close> and \<open>Swap\<close>, leaves a
  rearrangement of its changes in ascending lexicographic order of the bytes of
  their effective paths, the effective path of a change being the path of \<open>From\<close>
  if \<open>From\<close> is present and the path of \<open>To\<close> otherwise. The sorted slice passes
  \<open>sort.IsSorted\<close>, and every rearrangement of the changes that passes it has the
  same sequence of paths. Changes at the paths \<open>b/x\<close>, \<open>a/y\<close>, \<open>a/a\<close> are sorted
  into the order \<open>a/a\<close>, \<open>a/y\<close>, \<open>b/x\<close>.
\<close>

theorem Changes_Sort_by_name:
  "sorted (map (\<lambda>x. if ChangeEntry_Equal teq eeq (From x) empty then Name (To x)
                     else Name (From x)) (Changes_Sort teq eeq c))
   \<and> mset (Changes_Sort teq eeq c) = mset c
   \<and> IsSorted teq eeq (Changes_Sort teq eeq c)
   \<and> (\<forall>c'. mset c' = mset c \<and> IsSorted teq eeq c' \<longrightarrow>
         map (Change_name teq eeq) c' = map (Change_name teq eeq) (Changes_Sort teq eeq c))
   \<and> (map (Change_name teq eeq) c = [''b/x'', ''a/y'', ''a/a''] \<longrightarrow>
         map (Change_name teq eeq) (Changes_Sort teq eeq c) = [''a/a'', ''a/y'', ''b/x''])"
proof -
  let ?n = "Change_name teq eeq"
  have n: "?n = (\<lambda>x. if ChangeEntry_Equal teq eeq (From x) empty then Name (To x)
                       else Name (From x))"
    by (rule ext) (simp add: Change_name_def)
  have s: "sorted (map ?n (Changes_Sort teq eeq c))" by (rule sorted_Changes_Sort)
  have m: "mset (Changes_Sort teq eeq c) = mset c" by (rule mset_Changes_Sort)
  have u: "map ?n c' = map ?n (Changes_Sort teq eeq c)"
    if "mset c' = mset c" "IsSorted teq eeq c'" for c'
  proof -
    have "mset (map ?n c') = mset (map ?n (Changes_Sort teq eeq c))"
      using that(1) m by (metis mset_map)
    moreover have "sorted (map ?n c')" using that(2) by (rule IsSorted_sorted)
    ultimately have "sort (map ?n (Changes_Sort teq eeq c)) = map ?n c'"
      by (intro properties_for_sort) simp_all
    then show ?thesis using s by (simp add: sorted_sort_id)
  qed
  have e: "map ?n (Changes_Sort teq eeq c) = [''a/a'', ''a/y'', ''b/x'']"
    if "map ?n c = [''b/x'', ''a/y'', ''a/a'']"
  proof -
    have "mset (map ?n (Changes_Sort teq eeq c)) = mset (map ?n c)"
      using m by (metis mset_map)
    then have "sort [''b/x'', ''a/y'', ''a/a''] = map ?n (Changes_Sort teq eeq c)"
      using s that by (intro properties_for_sort) simp_all
    then show ?thesis by simp
  qed
  have "sorted (map (\<lambda>x. if ChangeEntry_Equal teq eeq (From x) empty then Name (To x)
                     else Name (From x)) (Changes_Sort teq eeq c))"
    using s n by simp
  then show ?thesis using m sorted_IsSorted [OF s] u e by blast
qed

theorem Changes_Sort_by_name_witness:
  "Changes_Sort (=) (=) [ex_insert ''b/x'' 1, ex_change ''a/y'' 1 1, ex_change ''a/a'' 1 1]
     = [ex_change ''a/a'' 1 1, ex_change ''a/y'' 1 1, ex_insert ''b/x'' 1]
   \<and> map (Change_name (=) (=)) [ex_insert ''b/x'' 1, ex_change ''a/y'' 1 1, ex_change ''a/a'' 1 1]
     = [''b/x'', ''a/y'', ''a/a'']
   \<and> map (Change_name (=) (=))
        (Changes_Sort (=) (=) [ex_insert ''b/x'' 1, ex_change ''a/y'' 1 1, ex_change ''a/a'' 1 1])
     = [''a/a'', ''a/y'', ''b/x'']"
proof -
  let ?c = "[ex_insert ''b/x'' 1, ex_change ''a/y'' 1 1, ex_change ''a/a'' 1 1]"
  have n: "map (Change_name (=) (=)) ?c = [''b/x'', ''a/y'', ''a/a'']"
    by (simp add: Change_name_def ChangeEntry_Equal_def ex_change_def ex_insert_def ex_entry_def
        empty_def)
  have v: "Changes_Sort (=) (=) ?c
      = [ex_change ''a/a'' 1 1, ex_change ''a/y'' 1 1, ex_insert ''b/x'' 1]"
    by (simp add: Changes_Sort_def insertionSort_def Changes_Len_def insertionSort_outer.simps
        insertionSort_inner.simps Changes_Less_def Changes_Swap_def strings_Compare_def
        Change_name_def ChangeEntry_Equal_def ex_change_def ex_insert_def ex_entry_def empty_def)
  show ?thesis using Changes_Sort_by_name [of "(=)" "(=)" ?c] n v by simp
qed

section \<open>The length of a pkt-line\<close>

lemma digits_nth: "m < 10 \<Longrightarrow> [0x00, 0x01, 0x02, 0x03, 0x04, 0x05, 0x06, 0x07, 0x08, 0x09 :: byte] ! m = of_nat m"
proof -
  assume "m < 10"
  then have "m \<in> {0, 1, 2, 3, 4, 5, 6, 7, 8, 9}" by auto
  then show ?thesis by auto
qed

lemma letters_nth: "m < 6 \<Longrightarrow> [0x0a, 0x0b, 0x0c, 0x0d, 0x0e, 0x0f :: byte] ! m = of_nat (m + 10)"
proof -
  assume "m < 6"
  then have "m \<in> {0, 1, 2, 3, 4, 5}" by auto
  then show ?thesis by auto
qed

lemma segment_nth:
  "take k (drop a xs) = seg \<Longrightarrow> a \<le> n \<Longrightarrow> n < a + k \<Longrightarrow> a + k \<le> length xs \<Longrightarrow>
   xs ! n = seg ! (n - a)"
  by auto

lemma table_length: "length reverseHexTable = 256"
  by (simp add: reverseHexTable_def)

lemma table_segments:
  "take 48 (drop 0 reverseHexTable) = replicate 48 0xff"
  "take 10 (drop 48 reverseHexTable) = [0x00, 0x01, 0x02, 0x03, 0x04, 0x05, 0x06, 0x07, 0x08, 0x09]"
  "take 7 (drop 58 reverseHexTable) = replicate 7 0xff"
  "take 6 (drop 65 reverseHexTable) = [0x0a, 0x0b, 0x0c, 0x0d, 0x0e, 0x0f]"
  "take 26 (drop 71 reverseHexTable) = replicate 26 0xff"
  "take 6 (drop 97 reverseHexTable) = [0x0a, 0x0b, 0x0c, 0x0d, 0x0e, 0x0f]"
  "take 153 (drop 103 reverseHexTable) = replicate 153 0xff"
  by code_simp+

lemma table_nth:
  assumes "n < 256"
  shows "reverseHexTable ! n =
    (if 48 \<le> n \<and> n \<le> 57 then of_nat (n - 48)
     else if 65 \<le> n \<and> n \<le> 70 then of_nat (n - 55)
     else if 97 \<le> n \<and> n \<le> 102 then of_nat (n - 87)
     else 0xff)"
proof -
  consider "n < 48" | "48 \<le> n" "n < 58" | "58 \<le> n" "n < 65" | "65 \<le> n" "n < 71"
    | "71 \<le> n" "n < 97" | "97 \<le> n" "n < 103" | "103 \<le> n"
    by linarith
  then show ?thesis
  proof cases
    case 1
    then show ?thesis
      using segment_nth [OF table_segments(1), of n] by (simp add: table_length table_segments)
  next
    case 2
    then show ?thesis
      using segment_nth [OF table_segments(2), of n]
      by (simp add: table_length table_segments digits_nth)
  next
    case 3
    then show ?thesis
      using segment_nth [OF table_segments(3), of n] by (simp add: table_length table_segments)
  next
    case 4
    then have "of_nat (n - 65 + 10) = (of_nat (n - 55) :: byte)" by (simp add: algebra_simps)
    with 4 show ?thesis
      using segment_nth [OF table_segments(4), of n]
      by (simp add: table_length table_segments letters_nth)
  next
    case 5
    then show ?thesis
      using segment_nth [OF table_segments(5), of n] by (simp add: table_length table_segments)
  next
    case 6
    then have "of_nat (n - 97 + 10) = (of_nat (n - 87) :: byte)" by (simp add: algebra_simps)
    with 6 show ?thesis
      using segment_nth [OF table_segments(6), of n]
      by (simp add: table_length table_segments letters_nth)
  next
    case 7
    then show ?thesis
      using assms segment_nth [OF table_segments(7), of n]
      by (simp add: table_length table_segments)
  qed
qed


lemma hexval_eq:
  "hexval b = (case hex_digit b of Some d \<Rightarrow> d | None \<Rightarrow> 255)"
proof -
  have n: "unat b < 256" using unsigned_less [of b] by simp
  have u: "uint b = int (unat b)" by simp
  have w: "uint (of_nat m :: byte) = int m" if "m < 256" for m
  proof -
    have "unat (of_nat m :: byte) = m" using that by (simp add: unsigned_of_nat take_bit_nat_eq_self)
    then show ?thesis by (metis uint_nat)
  qed
  have m: "uint (b - k) = uint b - uint k" if "unat k \<le> unat b" for k
  proof -
    have "uint k \<le> uint b" using that by (simp add: word_le_nat_alt [symmetric] word_le_def)
    then show ?thesis using uint_sub_lem [of k b] by simp
  qed
  show ?thesis
    unfolding hexval_def hex_digit_def table_nth [OF n]
    by (auto simp: word_le_nat_alt w m)
qed

lemma hex_digit_range: "hex_digit b = Some d \<Longrightarrow> 0 \<le> d \<and> d \<le> 15"
  by (auto simp: hex_digit_def word_le_def split: if_splits)

lemma or_add_int:
  fixes y :: int assumes "0 \<le> y" "y < 2 ^ k"
  shows "push_bit k c OR y = push_bit k c + y"
proof -
  have t: "take_bit k y = y" using assms by (simp add: take_bit_int_eq_self)
  have "push_bit k c AND y = 0"
    by (rule bit_eqI) (subst t [symmetric], auto simp: bit_simps)
  then show ?thesis by (simp add: disjunctive_add_eq_or)
qed

lemma pack_hex:
  fixes a b c d :: int
  assumes "0 \<le> a" "a \<le> 15" "0 \<le> b" "b \<le> 15" "0 \<le> c" "c \<le> 15" "0 \<le> d" "d \<le> 15"
  shows "push_bit 12 a OR push_bit 8 b OR push_bit 4 c OR d = 4096 * a + 256 * b + 16 * c + d"
proof -
  have 1: "push_bit 4 c OR d = 16 * c + d"
    using or_add_int [of d 4 c] assms by (simp add: push_bit_eq_mult)
  have 2: "push_bit 8 b OR (16 * c + d) = 256 * b + (16 * c + d)"
    using or_add_int [of "16 * c + d" 8 b] assms by (simp add: push_bit_eq_mult)
  have 3: "push_bit 12 a OR (256 * b + (16 * c + d)) = 4096 * a + (256 * b + (16 * c + d))"
    using or_add_int [of "256 * b + (16 * c + d)" 12 a] assms by (simp add: push_bit_eq_mult)
  have "push_bit 12 a OR push_bit 8 b OR push_bit 4 c OR d
      = push_bit 12 a OR (push_bit 8 b OR (push_bit 4 c OR d))"
    by (simp add: or.assoc)
  then show ?thesis using 1 2 3 by simp
qed

lemma hexDecode_hex4:
  "hexDecode h = (case hex4 h of None \<Rightarrow> Inl ErrInvalidPktLen | Some n \<Rightarrow> Inr n)"
proof -
  obtain h0 h1 h2 h3 where h: "h = (h0, h1, h2, h3)" by (cases h) auto
  show ?thesis
  proof (cases "hex4 h")
    case None
    then show ?thesis
      by (auto simp: h hex4_def hexDecode_def hexval_eq Let_def split: option.splits)
  next
    case (Some n)
    then obtain a b c d where d: "hex_digit h0 = Some a" "hex_digit h1 = Some b"
        "hex_digit h2 = Some c" "hex_digit h3 = Some d" "n = 4096 * a + 256 * b + 16 * c + d"
      by (auto simp: h hex4_def split: option.splits)
    have r: "0 \<le> a" "a \<le> 15" "0 \<le> b" "b \<le> 15" "0 \<le> c" "c \<le> 15" "0 \<le> d" "d \<le> 15"
      using d hex_digit_range by blast+
    show ?thesis using Some d r
      by (simp add: h hexDecode_def hexval_eq Let_def pack_hex)
  qed
qed

text \<open>
  Claim C8. For a header of four bytes: when one of them is not a hexadecimal
  digit the result is \<open>ErrInvalidPktLen\<close>; otherwise, with \<open>n\<close> the number the four
  digits denote, the result is the payload length \<open>0\<close> without error when \<open>n = 0\<close>
  (a flush), \<open>ErrInvalidPktLen\<close> when \<open>0 < n \<le> 4\<close> or \<open>n > OversizePayloadMax + 4\<close>,
  and the payload length \<open>n - 4\<close> otherwise.
\<close>

theorem readPayloadLen_header:
  assumes "rd_data (sc_r s) = h0 # h1 # h2 # h3 # rest"
  shows "fst (Scanner_readPayloadLen OversizePayloadMax s) =
     (case hex4 (h0, h1, h2, h3) of
        None \<Rightarrow> Inl ErrInvalidPktLen
      | Some n \<Rightarrow>
          if n = 0 then Inr 0
          else if n \<le> 4 \<or> n > OversizePayloadMax + 4 then Inl ErrInvalidPktLen
          else Inr (n - 4))"
  using assms
  by (simp add: Scanner_readPayloadLen_def ReadFull_len_def hexDecode_hex4 lenSize_def
      split: prod.splits option.splits)


theorem readPayloadLen_header_witness:
  "fst (Scanner_readPayloadLen 65520 (ex_scanner [0x30, 0x30, 0x30, 0x30])) = Inr 0
   \<and> fst (Scanner_readPayloadLen 65520 (ex_scanner [0x30, 0x30, 0x30, 0x34])) = Inl ErrInvalidPktLen
   \<and> fst (Scanner_readPayloadLen 65520 (ex_scanner [0x30, 0x30, 0x30, 0x36, 0x61, 0x0a])) = Inr 2
   \<and> fst (Scanner_readPayloadLen 65520 (ex_scanner [0x66, 0x46, 0x66, 0x34])) = Inr 65520
   \<and> fst (Scanner_readPayloadLen 65520 (ex_scanner [0x66, 0x66, 0x66, 0x35])) = Inl ErrInvalidPktLen
   \<and> fst (Scanner_readPayloadLen 65520 (ex_scanner [0x30, 0x30, 0x67, 0x30])) = Inl ErrInvalidPktLen"
  using readPayloadLen_header [of "ex_scanner [0x30, 0x30, 0x30, 0x30]" "0x30" "0x30" "0x30" "0x30" "[]" 65520]
    readPayloadLen_header [of "ex_scanner [0x30, 0x30, 0x30, 0x34]" "0x30" "0x30" "0x30" "0x34" "[]" 65520]
    readPayloadLen_header [of "ex_scanner [0x30, 0x30, 0x30, 0x36, 0x61, 0x0a]" "0x30" "0x30" "0x30" "0x36" "[0x61, 0x0a]" 65520]
    readPayloadLen_header [of "ex_scanner [0x66, 0x46, 0x66, 0x34]" "0x66" "0x46" "0x66" "0x34" "[]" 65520]
    readPayloadLen_header [of "ex_scanner [0x66, 0x66, 0x66, 0x35]" "0x66" "0x66" "0x66" "0x35" "[]" 65520]
    readPayloadLen_header [of "ex_scanner [0x30, 0x30, 0x67, 0x30]" "0x30" "0x30" "0x67" "0x30" "[]" 65520]
  by (simp add: ex_scanner_def hex4_def hex_digit_def)

section \<open>Splitting a string\<close>

declare StrSplitSkipEmpty_loop.simps [simp del]

lemma sep_fields_nonempty: "sep_fields sep s \<noteq> []"
  by (induction s) (auto split: list.splits)

lemma sep_fields_Cons_other: "c \<noteq> sep \<Longrightarrow> sep_fields sep (c # cs) = prepend [c] (sep_fields sep cs)"
  using sep_fields_nonempty [of sep cs] by (cases "sep_fields sep cs") auto

lemma prepend_prepend: "fs \<noteq> [] \<Longrightarrow> prepend cur (prepend [c] fs) = prepend (cur @ [c]) fs"
  by (cases fs) auto

lemma loop_fields:
  assumes "first \<le> i" "i \<le> length s"
  shows "(case StrSplitSkipEmpty_loop s sep first i sv of
            (f, sv') \<Rightarrow> if f < length s then sv' @ [drop f s] else sv')
         = sv @ filter (\<lambda>f. f \<noteq> []) (prepend (take (i - first) (drop first s)) (sep_fields sep (drop i s)))"
  using assms
proof (induction s sep first i sv rule: StrSplitSkipEmpty_loop.induct)
  case (1 s sep first i sv)
  show ?case
  proof (cases "i < length s")
    case False
    then have i: "i = length s" using 1 by simp
    show ?thesis using 1(3) by (subst StrSplitSkipEmpty_loop.simps) (auto simp: i)
  next
    case True
    then have d: "drop i s = s ! i # drop (Suc i) s" by (simp add: Cons_nth_drop_Suc)
    show ?thesis
    proof (cases "s ! i = sep")
      case False
      have t: "take (Suc i - first) (drop first s) = take (i - first) (drop first s) @ [s ! i]"
        using True 1(3) by (simp add: Suc_diff_le take_Suc_conv_app_nth)
      have "(case StrSplitSkipEmpty_loop s sep first (i + 1) sv of
            (f, sv') \<Rightarrow> if f < length s then sv' @ [drop f s] else sv')
         = sv @ filter (\<lambda>f. f \<noteq> []) (prepend (take (i + 1 - first) (drop first s)) (sep_fields sep (drop (i + 1) s)))"
        using 1(1) [OF True False] 1(3) True by simp
      then show ?thesis using True False
        by (subst StrSplitSkipEmpty_loop.simps)
          (simp add: d sep_fields_Cons_other prepend_prepend sep_fields_nonempty t del: sep_fields.simps)
    next
      case sep: True
      let ?sv = "if first \<noteq> i then sv @ [take (i - first) (drop first s)] else sv"
      have "(case StrSplitSkipEmpty_loop s sep (i + 1) (i + 1) ?sv of
            (f, sv') \<Rightarrow> if f < length s then sv' @ [drop f s] else sv')
         = ?sv @ filter (\<lambda>f. f \<noteq> []) (prepend (take (i + 1 - (i + 1)) (drop (i + 1) s)) (sep_fields sep (drop (i + 1) s)))"
        using 1(2) [OF True] sep True by simp
      moreover have "prepend [] fs = fs" if "fs \<noteq> []" for fs using that by (cases fs) auto
      moreover have "take (i - first) (drop first s) = [] \<longleftrightarrow> first = i"
        using True 1(3) by auto
      ultimately show ?thesis using True sep
        by (subst StrSplitSkipEmpty_loop.simps) (simp add: d sep_fields_nonempty)
    qed
  qed
qed


lemma sep_fields_free: "f \<in> set (sep_fields sep s) \<Longrightarrow> sep \<notin> set f"
proof (induction s arbitrary: f)
  case Nil
  then show ?case by simp
next
  case (Cons c cs)
  then show ?case
    by (cases "sep_fields sep cs") (auto split: if_splits)
qed

lemma sep_fields_join: "join_fields sep (sep_fields sep s) = s"
proof (induction s)
  case Nil
  then show ?case by simp
next
  case (Cons c cs)
  obtain f fs where f: "sep_fields sep cs = f # fs"
    using sep_fields_nonempty [of sep cs] by (cases "sep_fields sep cs") auto
  show ?case using Cons f by (cases fs) auto
qed

text \<open>
  Claim C10 as it is stated, for every string and separator whatever the
  capacity, fails at the capacity \<open>-1\<close>: \<open>make\<close> panics, and nothing is
  returned.
\<close>

theorem StrSplitSkipEmpty_counterexample:
  "StrSplitSkipEmpty (2 ^ 44) ''a,b'' (CHR '','') (- 1) = Inl MakeSliceCapOutOfRange
   \<and> nonempty_fields (CHR '','') ''a,b'' = [''a'', ''b'']"
  by (simp add: StrSplitSkipEmpty_def nonempty_fields_def)

text \<open>
  Claim C10, amended. With a capacity that \<open>make\<close> accepts, from \<open>0\<close> to the largest
  one of the platform, \<open>StrSplitSkipEmpty\<close> returns the fields of \<open>s\<close> that are not
  empty, in their order, where the fields of \<open>s\<close> are the strings free of the
  separator that joined by the separator give \<open>s\<close>; no element of the result is
  empty, and none contains the separator. With any other capacity it panics.
\<close>

theorem StrSplitSkipEmpty_fields:
  "StrSplitSkipEmpty maxcap s sep suggestcap =
     (if 0 \<le> suggestcap \<and> suggestcap \<le> maxcap then Inr (nonempty_fields sep s)
      else Inl MakeSliceCapOutOfRange)
    \<and> join_fields sep (sep_fields sep s) = s
    \<and> (\<forall>f \<in> set (sep_fields sep s). sep \<notin> set f)
    \<and> (\<forall>x \<in> set (nonempty_fields sep s). x \<noteq> [] \<and> sep \<notin> set x)"
proof -
  have p: "prepend [] fs = fs" if "fs \<noteq> []" for fs using that by (cases fs) auto
  have 1: "StrSplitSkipEmpty maxcap s sep suggestcap = Inr (nonempty_fields sep s)"
    if "0 \<le> suggestcap \<and> suggestcap \<le> maxcap"
    using that p loop_fields [of 0 0 s sep "[]"]
    by (auto simp: StrSplitSkipEmpty_def nonempty_fields_def sep_fields_nonempty split: prod.splits)
  have 2: "StrSplitSkipEmpty maxcap s sep suggestcap = Inl MakeSliceCapOutOfRange"
    if "\<not> (0 \<le> suggestcap \<and> suggestcap \<le> maxcap)"
    using that by (auto simp: StrSplitSkipEmpty_def)
  have 3: "\<forall>f \<in> set (sep_fields sep s). sep \<notin> set f" using sep_fields_free by blast
  have 4: "\<forall>x \<in> set (nonempty_fields sep s). x \<noteq> [] \<and> sep \<notin> set x"
    using sep_fields_free by (auto simp: nonempty_fields_def)
  show ?thesis using 1 2 3 4 sep_fields_join [of sep s] by simp
qed

theorem StrSplitSkipEmpty_fields_witness:
  "StrSplitSkipEmpty (2 ^ 44) '',,a,bc,,d,'' (CHR '','') 4 = Inr [''a'', ''bc'', ''d'']
   \<and> StrSplitSkipEmpty (2 ^ 44) '',,a,bc,,d,'' (CHR '','') 0 = Inr [''a'', ''bc'', ''d'']
   \<and> StrSplitSkipEmpty (2 ^ 44) '',,a,bc,,d,'' (CHR '','') (2 ^ 62) = Inl MakeSliceCapOutOfRange
   \<and> StrSplitSkipEmpty (2 ^ 44) '',,a,bc,,d,'' (CHR '','') (- 1) = Inl MakeSliceCapOutOfRange
   \<and> nonempty_fields (CHR '','') '',,a,bc,,d,'' = [''a'', ''bc'', ''d'']
   \<and> sep_fields (CHR '','') '',,a,bc,,d,'' = [[], [], ''a'', ''bc'', [], ''d'', []]"
proof -
  have f: "sep_fields (CHR '','') '',,a,bc,,d,'' = [[], [], ''a'', ''bc'', [], ''d'', []]"
    by simp
  have n: "nonempty_fields (CHR '','') '',,a,bc,,d,'' = [''a'', ''bc'', ''d'']"
    by (simp add: nonempty_fields_def)
  have a: "StrSplitSkipEmpty (2 ^ 44) '',,a,bc,,d,'' (CHR '','') 4 = Inr [''a'', ''bc'', ''d'']"
    using StrSplitSkipEmpty_fields [of "2 ^ 44" "'',,a,bc,,d,''" "CHR '',''" 4] n by simp
  have b: "StrSplitSkipEmpty (2 ^ 44) '',,a,bc,,d,'' (CHR '','') 0 = Inr [''a'', ''bc'', ''d'']"
    using StrSplitSkipEmpty_fields [of "2 ^ 44" "'',,a,bc,,d,''" "CHR '',''" 0] n by simp
  have c: "StrSplitSkipEmpty (2 ^ 44) '',,a,bc,,d,'' (CHR '','') (2 ^ 62)
      = Inl MakeSliceCapOutOfRange"
    using StrSplitSkipEmpty_fields [of "2 ^ 44" "'',,a,bc,,d,''" "CHR '',''" "2 ^ 62"] by simp
  have d: "StrSplitSkipEmpty (2 ^ 44) '',,a,bc,,d,'' (CHR '','') (- 1)
      = Inl MakeSliceCapOutOfRange"
    using StrSplitSkipEmpty_fields [of "2 ^ 44" "'',,a,bc,,d,''" "CHR '',''" "- 1"] by simp
  show ?thesis using a b c d f n by simp
qed

end
